theory Spec2Isabelle
  imports Main
begin

section \<open>Location statuses\<close>

text \<open>
  Modelled from the spec: the tables \<open>LocationTrigger\<close>, \<open>PipelineStatus\<close> and
  \<open>LocationStatus\<close> that LocationTracker.ts imports from core-interfaces/Location are
  not among the sources. The spec gives two trigger classes (reload, change) and six
  pipeline statuses, strictly ordered. A status is a string, as in the source. Each table
  below holds the object's own keys (\<open>map_of\<close>, \<open>None\<close> when the key is not its own).
  The step of a pipeline status is its index in the key order: \<open>onPipelineStatusChange\<close>
  reads the status of a step as \<open>Object.keys(PipelineStatus)[step]\<close>, and
  \<open>currentStep\<close> is 0 when nothing is recorded.
\<close>

definition LocationTrigger :: "string \<Rightarrow> string option" where
  "LocationTrigger = map_of [(''reload'', ''reload''), (''change'', ''change'')]"

definition PipelineStatus_entries :: "(string \<times> nat) list" where
  "PipelineStatus_entries =
     [(''NavigationRequested'', 0), (''HttpRequested'', 1), (''HttpRedirected'', 2),
      (''HttpResponded'', 3), (''DomContentLoaded'', 4), (''AllContentLoaded'', 5)]"

definition PipelineStatus :: "string \<Rightarrow> nat option" where
  "PipelineStatus = map_of PipelineStatus_entries"

definition LocationStatus :: "string \<Rightarrow> string option" where
  "LocationStatus =
     map_of [(''reload'', ''reload''), (''change'', ''change''),
       (''NavigationRequested'', ''NavigationRequested''),
       (''HttpRequested'', ''HttpRequested''), (''HttpRedirected'', ''HttpRedirected''),
       (''HttpResponded'', ''HttpResponded''), (''DomContentLoaded'', ''DomContentLoaded''),
       (''AllContentLoaded'', ''AllContentLoaded'')]"

text \<open>
  A bracket lookup \<open>object[key]\<close> finds an own key, or else a property every object
  inherits from \<open>Object.prototype\<close> (a function, or the prototype itself for
  \<open>__proto__\<close>), or else nothing (\<open>undefined\<close>).
\<close>

definition objectPrototypeKeys :: "string list" where
  "objectPrototypeKeys =
     [''constructor'', ''__defineGetter__'', ''__defineSetter__'', ''hasOwnProperty'',
      ''__lookupGetter__'', ''__lookupSetter__'', ''isPrototypeOf'', ''propertyIsEnumerable'',
      ''toString'', ''valueOf'', ''__proto__'', ''toLocaleString'']"

datatype 'v lookup = Own 'v | Inherited | Undefined

definition lookup :: "(string \<Rightarrow> 'v option) \<Rightarrow> string \<Rightarrow> 'v lookup" where
  "lookup table key =
     (case table key of
        Some v \<Rightarrow> Own v
      | None \<Rightarrow> if key \<in> set objectPrototypeKeys then Inherited else Undefined)"

text \<open>\<open>Object.keys(PipelineStatus)\<close>, and reading it at an index (\<open>undefined\<close> out of range).\<close>

definition pipelineKeys :: "string list" where
  "pipelineKeys = map fst PipelineStatus_entries"

definition keyAt :: "string list \<Rightarrow> nat \<Rightarrow> string option" where
  "keyAt ks i = (if i < length ks then Some (ks ! i) else None)"

text \<open>
  JavaScript truthiness of a looked-up string and of a looked-up number: an inherited
  function or object is truthy.
\<close>

fun truthyString :: "string lookup \<Rightarrow> bool" where
  "truthyString Undefined = False"
| "truthyString Inherited = True"
| "truthyString (Own s) = (s \<noteq> [])"

fun truthyNumber :: "nat lookup \<Rightarrow> bool" where
  "truthyNumber Undefined = False"
| "truthyNumber Inherited = True"
| "truthyNumber (Own n) = (n \<noteq> 0)"

definition READY :: string where
  "READY = ''READY''"

section \<open>Commands and navigations\<close>

text \<open>
  \<open>ICommandMeta\<close>: the fields the sources read and write. A date is a number of
  milliseconds; \<open>None\<close> is a field not yet set. The result of a command is the value
  it returned or the error it threw.
\<close>

datatype ('e, 'a) commandResult = Value 'a | Error 'e

record ('e, 'a) ICommandMeta =
  id_cmd :: int
  name_cmd :: string
  startDate :: "int option"
  endDate :: "int option"
  result_cmd :: "('e, 'a) commandResult option"
  resultType :: "string option"

text \<open>
  \<open>INavigation\<close>: \<open>stateChanges\<close> is a \<open>Map\<close> from pipeline status to date, kept in
  insertion order.
\<close>

record INavigation =
  navigationReason :: string
  startCommandId :: int
  initiatedTime :: int
  stateChanges :: "(string \<times> int) list"

text \<open>
  Modelled from the spec: TabNavigations is not among the sources. A tab owns an ordered
  history of navigation entries; \<open>top\<close> is the last one, or nothing.
\<close>

definition top :: "INavigation list \<Rightarrow> INavigation option" where
  "top history = (if history = [] then None else Some (last history))"

section \<open>LocationTracker\<close>

text \<open>
  The tracker's state. A waiter is the \<open>resolve\<close> function of a promise, named by a
  number; \<open>resolved\<close> logs the calls of \<open>resolve()\<close> in order, and \<open>nextPromise\<close>
  names the next promise created.
\<close>

record LocationTracker =
  defaultWaitForLocationCommandId :: int
  navigations :: "INavigation list"
  waitForCbs :: "string \<Rightarrow> nat list"
  resolved :: "nat list"
  nextPromise :: nat

definition newTracker :: "INavigation list \<Rightarrow> LocationTracker" where
  "newTracker navs =
     \<lparr>defaultWaitForLocationCommandId = 0, navigations = navs,
      waitForCbs = (\<lambda>_. []), resolved = [], nextPromise = 0\<rparr>"

definition startsWith :: "string \<Rightarrow> string \<Rightarrow> bool" where
  "startsWith s p = (take (length p) s = p)"

definition isWaitFor :: "('e, 'a) ICommandMeta \<Rightarrow> bool" where
  "isWaitFor c = startsWith (name_cmd c) ''waitFor''"

text \<open>The loop of \<open>willRunCommand\<close>: \<open>last\<close> and the marker are threaded through.\<close>

fun scanCommands ::
  "('e, 'a) ICommandMeta list \<Rightarrow> ('e, 'a) ICommandMeta option \<Rightarrow> int
     \<Rightarrow> ('e, 'a) ICommandMeta option \<times> int"
where
  "scanCommands [] lst d = (lst, d)"
| "scanCommands (command # rest) lst d =
     (let d1 = (if name_cmd command = ''goto'' then id_cmd command else d);
          d2 = (if (case lst of None \<Rightarrow> False | Some l \<Rightarrow> isWaitFor l) \<and> \<not> isWaitFor command
                then id_cmd command else d1)
      in scanCommands rest (Some command) d2)"

definition willRunCommand ::
  "LocationTracker \<Rightarrow> ('e, 'a) ICommandMeta \<Rightarrow> ('e, 'a) ICommandMeta list \<Rightarrow> LocationTracker"
where
  "willRunCommand t newCommand previousCommands =
     (case scanCommands previousCommands None (defaultWaitForLocationCommandId t) of
        (lst, d) \<Rightarrow>
          if name_cmd newCommand = ''waitForLocation''
             \<and> (case lst of None \<Rightarrow> False | Some l \<Rightarrow> isWaitFor l)
          then t\<lparr>defaultWaitForLocationCommandId := id_cmd newCommand\<rparr>
          else t\<lparr>defaultWaitForLocationCommandId := d\<rparr>)"

text \<open>
  The anchor as the spec words it: a previous command is a candidate when it is a
  \<open>goto\<close>, or when it is not a \<open>waitFor*\<close> command and the command just before it is
  one; the anchor is the id of the last candidate.
\<close>

definition isAnchorAt :: "('e, 'a) ICommandMeta list \<Rightarrow> nat \<Rightarrow> bool" where
  "isAnchorAt cs i =
     (name_cmd (cs ! i) = ''goto''
      \<or> (0 < i \<and> isWaitFor (cs ! (i - 1)) \<and> \<not> isWaitFor (cs ! i)))"

definition specAnchor :: "('e, 'a) ICommandMeta list \<Rightarrow> int option" where
  "specAnchor cs =
     (case filter (isAnchorAt cs) [0..<length cs] of
        [] \<Rightarrow> None
      | i # rest \<Rightarrow> Some (id_cmd (cs ! last (i # rest))))"

text \<open>
  \<open>getStepByStatus\<close> is \<open>Number(PipelineStatus[status])\<close>; \<open>None\<close> stands for
  \<open>NaN\<close> (the number of \<open>undefined\<close>, and of an inherited function or object),
  which every comparison below treats as the source does (it is never greater).
\<close>

definition getStepByStatus :: "string \<Rightarrow> nat option" where
  "getStepByStatus status = PipelineStatus status"

fun maxStepOver :: "string list \<Rightarrow> nat \<Rightarrow> nat" where
  "maxStepOver [] maxStep = maxStep"
| "maxStepOver (status # rest) maxStep =
     (case getStepByStatus status of
        None \<Rightarrow> maxStepOver rest maxStep
      | Some step \<Rightarrow> if step > maxStep then maxStepOver rest step else maxStepOver rest maxStep)"

definition getPipelineStatus :: "INavigation \<Rightarrow> nat" where
  "getPipelineStatus page = maxStepOver (map fst (stateChanges page)) 0"

definition currentStep :: "LocationTracker \<Rightarrow> nat" where
  "currentStep t =
     (case top (navigations t) of None \<Rightarrow> 0 | Some location \<Rightarrow> getPipelineStatus location)"

definition getTriggerForNavigationReason :: "string \<Rightarrow> string option" where
  "getTriggerForNavigationReason reason =
     (if reason = ''newTab'' then None
      else let isReload =
                 (reason = ''httpHeaderRefresh'' \<or> reason = ''metaTagRefresh''
                  \<or> reason = ''reload'')
           in if isReload then LocationTrigger ''reload'' else LocationTrigger ''change'')"

fun hasTriggerIn :: "INavigation list \<Rightarrow> string \<Rightarrow> int \<Rightarrow> bool \<Rightarrow> bool" where
  "hasTriggerIn [] trigger sinceCommandId inclusive = False"
| "hasTriggerIn (history # rest) trigger sinceCommandId inclusive =
     (let isMatch0 = (startCommandId history > sinceCommandId);
          isMatch = (if inclusive then isMatch0 \<or> startCommandId history \<ge> sinceCommandId
                     else isMatch0)
      in if isMatch \<and> getTriggerForNavigationReason (navigationReason history) = Some trigger
         then True
         else hasTriggerIn rest trigger sinceCommandId inclusive)"

definition hasTriggerSinceCommand :: "LocationTracker \<Rightarrow> string \<Rightarrow> int \<Rightarrow> bool \<Rightarrow> bool" where
  "hasTriggerSinceCommand t trigger sinceCommandId inclusive =
     hasTriggerIn (navigations t) trigger sinceCommandId inclusive"

text \<open>
  \<open>runWaitForCbs\<close>: while the list is not empty, shift its first waiter and call it.
\<close>

fun drainCbs :: "nat list \<Rightarrow> nat list \<Rightarrow> nat list" where
  "drainCbs [] called = called"
| "drainCbs (resolve # rest) called = drainCbs rest (called @ [resolve])"

definition runWaitForCbs :: "LocationTracker \<Rightarrow> string \<Rightarrow> LocationTracker" where
  "runWaitForCbs t status =
     t\<lparr>resolved := drainCbs (waitForCbs t status) (resolved t),
       waitForCbs := (waitForCbs t)(status := [])\<rparr>"

text \<open>
  \<open>waitFor\<close> returns at once (\<open>Returned\<close>), returns a pending promise whose
  \<open>resolve\<close> it has queued (\<open>Pending\<close>), throws (\<open>Thrown\<close>), or returns a
  promise that its executor's exception has rejected (\<open>Rejected\<close>). The trigger found
  for an inherited name is a function, which equals no navigation's trigger; the waiter
  list found for an inherited name has no \<open>push\<close>, and calling it is a TypeError
  inside the promise's executor.

  Modelled from the spec: \<open>assert\<close> of commons/utils is not among the sources; it
  throws an error carrying the message when its value is falsy.
\<close>

datatype waitResult = Returned | Pending nat | Thrown string | Rejected string

definition waitFor ::
  "LocationTracker \<Rightarrow> string \<Rightarrow> int option \<Rightarrow> bool \<Rightarrow> waitResult \<times> LocationTracker"
where
  "waitFor t status0 sinceCommandId inclusiveOfCommandId =
     (if status0 = READY \<and> top (navigations t) = None then (Returned, t)
      else
        let status = (if status0 = READY then ''DomContentLoaded'' else status0) in
        if \<not> truthyString (lookup LocationStatus status)
        then (Thrown (''Invalid navigation status: '' @ status), t)
        else if (case lookup LocationTrigger status of
                   Undefined \<Rightarrow> False
                 | Inherited \<Rightarrow> False
                 | Own trigger \<Rightarrow>
                     trigger \<noteq> [] \<and>
                     hasTriggerSinceCommand t trigger
                       (case sinceCommandId of
                          None \<Rightarrow> defaultWaitForLocationCommandId t
                        | Some c \<Rightarrow> c)
                       inclusiveOfCommandId)
        then (Returned, t)
        else if truthyNumber (lookup PipelineStatus status)
                \<and> (case getStepByStatus status of
                      None \<Rightarrow> False
                    | Some step \<Rightarrow> step \<noteq> 0 \<and> step \<le> currentStep t)
        then (Returned, t)
        else if LocationStatus status = None
        then (Rejected ''TypeError: this.waitForCbs[status].push is not a function'', t)
        else (Pending (nextPromise t),
              t\<lparr>waitForCbs := (waitForCbs t)(status := waitForCbs t status @ [nextPromise t]),
                nextPromise := Suc (nextPromise t)\<rparr>))"

definition onNavigation :: "LocationTracker \<Rightarrow> INavigation \<Rightarrow> LocationTracker" where
  "onNavigation t lifecycle =
     (if navigationReason lifecycle = ''newTab'' then t
      else case getTriggerForNavigationReason (navigationReason lifecycle) of
             None \<Rightarrow> t
           | Some trigger \<Rightarrow> runWaitForCbs t trigger)"

text \<open>
  The loop of \<open>onPipelineStatusChange\<close>, from \<open>step = lastStep + 1\<close> for
  \<open>stepsToUpdate\<close> rounds. Past the end of the keys the status is \<open>undefined\<close>, and
  reading the length of its waiter list is a TypeError.
\<close>

fun updateSteps :: "nat \<Rightarrow> nat \<Rightarrow> nat \<Rightarrow> LocationTracker \<Rightarrow> string + LocationTracker" where
  "updateSteps 0 step newStep t = Inr t"
| "updateSteps (Suc k) step newStep t =
     (case keyAt pipelineKeys step of
        None \<Rightarrow> Inl ''TypeError''
      | Some status \<Rightarrow>
          updateSteps k (Suc step) newStep
            (if status \<noteq> ''HttpRedirected'' \<or> step = newStep then runWaitForCbs t status
             else t))"

definition onPipelineStatusChange :: "LocationTracker \<Rightarrow> string \<Rightarrow> string + LocationTracker" where
  "onPipelineStatusChange t newStatus =
     (let incomingStep = getStepByStatus newStatus;
          lastStep = currentStep t;
          newStep = (case incomingStep of
                       None \<Rightarrow> lastStep
                     | Some i \<Rightarrow> if i > lastStep then i else lastStep);
          stepsToUpdate = newStep - lastStep
      in updateSteps stepsToUpdate (lastStep + 1) newStep t)"

text \<open>
  The statuses whose waiters a change from step \<open>s\<close> to step \<open>n\<close> wakes, in the
  spec's words: every status after \<open>s\<close> up to \<open>n\<close>, a redirect only as the last one.
\<close>

definition wokenStatuses :: "nat \<Rightarrow> nat \<Rightarrow> string list" where
  "wokenStatuses s n =
     map (\<lambda>j. pipelineKeys ! j)
       (filter (\<lambda>j. pipelineKeys ! j \<noteq> ''HttpRedirected'' \<or> j = n) [Suc s..<Suc n])"

text \<open>
  Every waiter is queued once and called at most once: the promises named so far are
  the queued and the called ones, none twice.
\<close>

definition statusKeys :: "string list" where
  "statusKeys = [''reload'', ''change''] @ pipelineKeys"

definition trackerOk :: "LocationTracker \<Rightarrow> bool" where
  "trackerOk t =
     (distinct (resolved t)
      \<and> (\<forall>p \<in> set (resolved t). p < nextPromise t)
      \<and> (\<forall>st \<in> set statusKeys.
            distinct (waitForCbs t st)
            \<and> (\<forall>p \<in> set (waitForCbs t st). p < nextPromise t \<and> p \<notin> set (resolved t))
            \<and> (\<forall>st' \<in> set statusKeys.
                  st = st' \<or> set (waitForCbs t st) \<inter> set (waitForCbs t st') = {})))"

text \<open>
  Modelled from the spec: TabNavigations is not among the sources. Recording a
  lifecycle event advances the \<open>stateChanges\<close> mapping of the top entry
  (\<open>Map.set\<close>: a key already there keeps its place and takes the new date).
\<close>

fun mapSet :: "(string \<times> 'v) list \<Rightarrow> string \<Rightarrow> 'v \<Rightarrow> (string \<times> 'v) list" where
  "mapSet [] k v = [(k, v)]"
| "mapSet ((k', v') # rest) k v =
     (if k' = k then (k, v) # rest else (k', v') # mapSet rest k v)"

definition recordLifecycleEvent :: "INavigation list \<Rightarrow> string \<times> int \<Rightarrow> INavigation list" where
  "recordLifecycleEvent history ev =
     (if history = [] then []
      else butlast history @
           [(last history)\<lparr>stateChanges := mapSet (stateChanges (last history)) (fst ev) (snd ev)\<rparr>])"

definition recordStatuses :: "LocationTracker \<Rightarrow> (string \<times> int) list \<Rightarrow> LocationTracker" where
  "recordStatuses t evs = t\<lparr>navigations := foldl recordLifecycleEvent (navigations t) evs\<rparr>"

text \<open>The statuses woken by \<open>k\<close> rounds of the loop starting at \<open>step\<close>.\<close>

definition wokenFrom :: "nat \<Rightarrow> nat \<Rightarrow> nat \<Rightarrow> string list" where
  "wokenFrom step k newStep =
     map (\<lambda>j. pipelineKeys ! j)
       (filter (\<lambda>j. pipelineKeys ! j \<noteq> ''HttpRedirected'' \<or> j = newStep) [step..<step + k])"

text \<open>Concrete navigations and a tracker with three queued waiters, for the examples.\<close>

definition demoNavigation :: INavigation where
  "demoNavigation =
     \<lparr>navigationReason = ''goto'', startCommandId = 1, initiatedTime = 0,
      stateChanges = [(''NavigationRequested'', 1), (''HttpRequested'', 2)]\<rparr>"



definition demoTracker :: LocationTracker where
  "demoTracker =
     \<lparr>defaultWaitForLocationCommandId = 0, navigations = [demoNavigation],
      waitForCbs = (\<lambda>_. [])(''HttpRedirected'' := [0], ''HttpResponded'' := [1, 2]),
      resolved = [], nextPromise = 3\<rparr>"


text \<open>The tracker after a status-change event (the event never fails, as shown below).\<close>

definition afterStatusChange :: "LocationTracker \<Rightarrow> string \<Rightarrow> LocationTracker" where
  "afterStatusChange t newStatus =
     (case onPipelineStatusChange t newStatus of Inl err \<Rightarrow> t | Inr t' \<Rightarrow> t')"

text \<open>Concrete commands: a \<open>goto\<close>, a wait, and the click after it.\<close>

definition demoCommand :: "int \<Rightarrow> string \<Rightarrow> (string, string) ICommandMeta" where
  "demoCommand i n =
     \<lparr>id_cmd = i, name_cmd = n, startDate = None, endDate = None, result_cmd = None,
      resultType = None\<rparr>"

definition demoCommands :: "(string, string) ICommandMeta list" where
  "demoCommands = [demoCommand 1 ''goto'', demoCommand 2 ''waitForElement'', demoCommand 3 ''click'']"

section \<open>SessionState\<close>

text \<open>
  A captured websocket message, and the recorder's state: the fields of the class that
  the operations below read or write. A listener is a function of the caller's, named by
  a number; \<open>delivered\<close> logs the calls of listeners in order. \<open>clock\<close> is what
  \<open>new Date()\<close> reads.

  Modelled from the spec: SessionDb is not among the sources. Its commands table is
  insert-oriented and keyed by the command id: a second insert of the same id updates the
  row (the source notes ``second insert on purpose -- it will do an update''). The table is
  the list of its rows; the websocket table is the list of its inserts.
\<close>

record IWebsocketResourceMessage =
  resourceId :: int
  message :: string
  messageId :: nat
  source :: string

record ('e, 'a) SessionState =
  sessionId :: string
  commands :: "('e, 'a) ICommandMeta list"
  navigationsByTabId :: "(string \<times> INavigation list) list"
  db_commands :: "('e, 'a) ICommandMeta list"
  db_websocketMessages :: "(int option \<times> IWebsocketResourceMessage) list"
  websocketMessages :: "IWebsocketResourceMessage list"
  websocketListeners :: "int \<Rightarrow> nat list option"
  browserRequestIdToResources :: "string \<Rightarrow> (int \<times> string) list option"
  delivered :: "(nat \<times> IWebsocketResourceMessage) list"
  errorsLogged :: "string list"
  websocketMessageIdCounter :: nat
  lastErrorTime :: "int option"
  createDate :: int
  closeDate :: "int option"
  clock :: int

definition insertCommand ::
  "('e, 'a) ICommandMeta list \<Rightarrow> ('e, 'a) ICommandMeta \<Rightarrow> ('e, 'a) ICommandMeta list"
where
  "insertCommand rows commandMeta =
     filter (\<lambda>r. id_cmd r \<noteq> id_cmd commandMeta) rows @ [commandMeta]"

definition lastCommand :: "('e, 'a, 'z) SessionState_scheme \<Rightarrow> ('e, 'a) ICommandMeta option" where
  "lastCommand s = (if commands s = [] then None else Some (last (commands s)))"

subsection \<open>runCommand\<close>

text \<open>
  The wrapped function is any state transformer that returns a value (\<open>Inr\<close>) or throws
  (\<open>Inl\<close>). \<open>commandMeta\<close> is one object, shared with the \<open>commands\<close> list: the
  list holds it at the index it was pushed at, and sees every write to it.
  \<open>runCommand_start\<close> is the state in which the wrapped function is called;
  \<open>runCommand_end\<close> is the \<open>finally\<close> block.
\<close>

definition runCommand_start ::
  "('e, 'a) ICommandMeta \<Rightarrow> ('e, 'a) SessionState \<Rightarrow> ('e, 'a) ICommandMeta \<times> ('e, 'a) SessionState"
where
  "runCommand_start commandMeta s =
     (let meta1 = commandMeta\<lparr>startDate := Some (clock s)\<rparr>
      in (meta1,
          s\<lparr>commands := commands s @ [meta1],
            db_commands := insertCommand (db_commands s) meta1\<rparr>))"

definition runCommand_end ::
  "nat \<Rightarrow> ('e, 'a) ICommandMeta \<Rightarrow> ('e, 'a) commandResult \<Rightarrow> ('e, 'a) SessionState
     \<Rightarrow> ('e, 'a) SessionState"
where
  "runCommand_end idx meta1 res s =
     (let meta2 = meta1\<lparr>endDate := Some (clock s), result_cmd := Some res\<rparr>
      in s\<lparr>commands := (commands s)[idx := meta2],
           db_commands := insertCommand (db_commands s) meta2\<rparr>)"

definition runCommand ::
  "(('e, 'a) SessionState \<Rightarrow> ('e + 'a) \<times> ('e, 'a) SessionState) \<Rightarrow> ('e, 'a) ICommandMeta
     \<Rightarrow> ('e, 'a) SessionState \<Rightarrow> ('e + 'a) \<times> ('e, 'a) SessionState"
where
  "runCommand commandFn commandMeta s =
     (case runCommand_start commandMeta s of
        (meta1, s1) \<Rightarrow>
          (case commandFn s1 of
             (Inr v, s2) \<Rightarrow> (Inr v, runCommand_end (length (commands s)) meta1 (Value v) s2)
           | (Inl err, s2) \<Rightarrow> (Inl err, runCommand_end (length (commands s)) meta1 (Error err) s2)))"

subsection \<open>Log events\<close>

record ILogEntry =
  sessionId_log :: "string option"
  level :: string
  timestamp :: int

text \<open>
  \<open>onLogEvent\<close>, as far as the recorder's own state goes: an entry of this session,
  or of no session, at level \<open>error\<close> sets \<open>lastErrorTime\<close>.
\<close>

definition onLogEvent ::
  "('e, 'a) SessionState \<Rightarrow> ILogEntry \<Rightarrow> ('e, 'a) SessionState"
where
  "onLogEvent s entry =
     (if sessionId_log entry = Some (sessionId s) \<or> sessionId_log entry = None
           \<or> sessionId_log entry = Some []
      then (if level entry = ''error'' then s\<lparr>lastErrorTime := Some (timestamp entry)\<rparr> else s)
      else s)"

text \<open>
  Modelled from the spec: the Logger of commons is not among the sources. The recorder's
  bound logger carries its session id, and the recorder subscribes \<open>onLogEvent\<close> to the
  global log stream from its construction until \<open>close\<close>: an error it logs comes back
  to its own \<open>onLogEvent\<close> as an entry of this session at level \<open>error\<close>, stamped with
  the current date.
\<close>

definition loggerError :: "('e, 'a) SessionState \<Rightarrow> string \<Rightarrow> ('e, 'a) SessionState" where
  "loggerError s action =
     (let s1 = s\<lparr>errorsLogged := errorsLogged s @ [action]\<rparr>
      in if closeDate s1 = None
         then onLogEvent s1
                \<lparr>sessionId_log = Some (sessionId s1), level = ''error'', timestamp = clock s1\<rparr>
         else s1)"

subsection \<open>Websocket messages\<close>

fun replayMessages ::
  "IWebsocketResourceMessage list \<Rightarrow> int \<Rightarrow> nat
     \<Rightarrow> (nat \<times> IWebsocketResourceMessage) list \<Rightarrow> (nat \<times> IWebsocketResourceMessage) list"
where
  "replayMessages [] rid listenerFn log = log"
| "replayMessages (m # rest) rid listenerFn log =
     (if resourceId m = rid then replayMessages rest rid listenerFn (log @ [(listenerFn, m)])
      else replayMessages rest rid listenerFn log)"

definition onWebsocketMessages ::
  "('e, 'a) SessionState \<Rightarrow> int \<Rightarrow> nat \<Rightarrow> ('e, 'a) SessionState"
where
  "onWebsocketMessages s rid listenerFn =
     (let listeners = (case websocketListeners s rid of None \<Rightarrow> [] | Some ls \<Rightarrow> ls)
      in s\<lparr>websocketListeners := (websocketListeners s)(rid \<mapsto> listeners @ [listenerFn]),
           delivered := replayMessages (websocketMessages s) rid listenerFn (delivered s)\<rparr>)"

text \<open>\<open>listeners.indexOf(listenerFn)\<close> and \<open>listeners.splice(idx, 1)\<close>.\<close>

fun removeFirst :: "nat \<Rightarrow> nat list \<Rightarrow> nat list" where
  "removeFirst x [] = []"
| "removeFirst x (y # ys) = (if x = y then ys else y # removeFirst x ys)"

definition stopWebsocketMessages ::
  "('e, 'a) SessionState \<Rightarrow> int \<Rightarrow> nat \<Rightarrow> ('e, 'a) SessionState"
where
  "stopWebsocketMessages s rid listenerFn =
     (case websocketListeners s rid of
        None \<Rightarrow> s
      | Some listeners \<Rightarrow>
          s\<lparr>websocketListeners := (websocketListeners s)(rid \<mapsto> removeFirst listenerFn listeners)\<rparr>)"

record websocketEvent =
  browserRequestId :: string
  isFromServer :: bool
  message_ev :: string

fun callListeners ::
  "nat list \<Rightarrow> IWebsocketResourceMessage
     \<Rightarrow> (nat \<times> IWebsocketResourceMessage) list \<Rightarrow> (nat \<times> IWebsocketResourceMessage) list"
where
  "callListeners [] m log = log"
| "callListeners (listener # rest) m log = callListeners rest m (log @ [(listener, m)])"

definition captureWebsocketMessage ::
  "('e, 'a) SessionState \<Rightarrow> websocketEvent
     \<Rightarrow> IWebsocketResourceMessage option \<times> ('e, 'a) SessionState"
where
  "captureWebsocketMessage s event =
     (case browserRequestIdToResources s (browserRequestId event) of
        None \<Rightarrow> (None, loggerError s ''CaptureWebsocketMessageError.UnregisteredResource'')
      | Some resources \<Rightarrow>
          if resources = []
          then (None, loggerError s ''CaptureWebsocketMessageError.UnregisteredResource'')
          else
            let finalRedirect = last resources;
                resourceMessage =
                  \<lparr>resourceId = fst finalRedirect, message = message_ev event,
                   messageId = websocketMessageIdCounter s + 1,
                   source = (if isFromServer event then ''server'' else ''client'')\<rparr>;
                listeners = (case websocketListeners s (resourceId resourceMessage) of
                               None \<Rightarrow> [] | Some ls \<Rightarrow> ls)
            in (Some resourceMessage,
                s\<lparr>websocketMessageIdCounter := websocketMessageIdCounter s + 1,
                  websocketMessages := websocketMessages s @ [resourceMessage],
                  db_websocketMessages :=
                    db_websocketMessages s
                    @ [(map_option id_cmd (lastCommand s), resourceMessage)],
                  delivered := callListeners listeners resourceMessage (delivered s)\<rparr>))"

text \<open>A run of captures, one event after the other.\<close>

fun captureAll :: "('e, 'a) SessionState \<Rightarrow> websocketEvent list \<Rightarrow> ('e, 'a) SessionState" where
  "captureAll s [] = s"
| "captureAll s (event # rest) = captureAll (snd (captureWebsocketMessage s event)) rest"

definition listenersFor :: "('e, 'a) SessionState \<Rightarrow> int \<Rightarrow> nat list" where
  "listenersFor s rid = (case websocketListeners s rid of None \<Rightarrow> [] | Some ls \<Rightarrow> ls)"

subsection \<open>Responsiveness\<close>

text \<open>\<open>String.prototype.includes\<close>.\<close>

fun includes_str :: "string \<Rightarrow> string \<Rightarrow> bool" where
  "includes_str [] p = (p = [])"
| "includes_str (c # cs) p = (take (length p) (c # cs) = p \<or> includes_str cs p)"

definition isErrorResult :: "('e, 'a) ICommandMeta \<Rightarrow> bool" where
  "isErrorResult command =
     (case resultType command of None \<Rightarrow> False | Some ty \<Rightarrow> includes_str ty ''Error'')"

text \<open>The inner loop of \<open>checkForResponsive\<close>, over the commands.\<close>

fun commandsLoop :: "('e, 'a) ICommandMeta list \<Rightarrow> bool \<Rightarrow> int \<Rightarrow> int" where
  "commandsLoop [] allContentLoaded lastSuccessDate = lastSuccessDate"
| "commandsLoop (command # rest) allContentLoaded lastSuccessDate =
     (case endDate command of
        None \<Rightarrow> commandsLoop rest allContentLoaded lastSuccessDate
      | Some ended \<Rightarrow>
          if allContentLoaded \<and> ended > lastSuccessDate \<and> \<not> isErrorResult command
          then commandsLoop rest allContentLoaded ended
          else commandsLoop rest allContentLoaded lastSuccessDate)"

definition allContentLoadedOf :: "INavigation list \<Rightarrow> int option" where
  "allContentLoadedOf history =
     (case top history of
        None \<Rightarrow> None
      | Some nav \<Rightarrow> map_of (stateChanges nav) ''AllContentLoaded'')"

definition lastPageTimeOf :: "INavigation list \<Rightarrow> int option" where
  "lastPageTimeOf history =
     (case allContentLoadedOf history of
        Some t \<Rightarrow> Some t
      | None \<Rightarrow> (case top history of None \<Rightarrow> None | Some nav \<Rightarrow> Some (initiatedTime nav)))"

text \<open>The outer loop, over the tabs' navigations.\<close>

fun navigationsLoop ::
  "INavigation list list \<Rightarrow> ('e, 'a) ICommandMeta list \<Rightarrow> int \<Rightarrow> int"
where
  "navigationsLoop [] cmds lastSuccessDate = lastSuccessDate"
| "navigationsLoop (navigation # rest) cmds lastSuccessDate =
     (let allContentLoaded = allContentLoadedOf navigation;
          lastPageTime = lastPageTimeOf navigation;
          lastSuccessDate1 =
            (case lastPageTime of
               None \<Rightarrow> lastSuccessDate
             | Some t \<Rightarrow> if t > lastSuccessDate then t else lastSuccessDate)
      in navigationsLoop rest cmds
           (commandsLoop cmds (allContentLoaded \<noteq> None) lastSuccessDate1))"

definition lastSuccessDateOf :: "('e, 'a) SessionState \<Rightarrow> int" where
  "lastSuccessDateOf s =
     navigationsLoop (map snd (navigationsByTabId s)) (commands s) (createDate s)"

text \<open>
  The last-success time in the spec's words, as amended: the latest of the session's
  creation date, the last page time of each tab (the \<open>AllContentLoaded\<close> date of its
  current navigation or, when it has none, the date that navigation was initiated), and,
  when some tab's current navigation has its content loaded, the end dates of the
  completed commands without an error.
\<close>

definition pageTimes :: "INavigation list list \<Rightarrow> int list" where
  "pageTimes histories =
     concat (map (\<lambda>h. case lastPageTimeOf h of None \<Rightarrow> [] | Some t \<Rightarrow> [t]) histories)"

definition completedEnds :: "('e, 'a) ICommandMeta list \<Rightarrow> int list" where
  "completedEnds cmds =
     concat (map (\<lambda>c. case endDate c of
                         None \<Rightarrow> []
                       | Some e \<Rightarrow> if isErrorResult c then [] else [e]) cmds)"

definition successTimes :: "('e, 'a) SessionState \<Rightarrow> int list" where
  "successTimes s =
     createDate s # pageTimes (map snd (navigationsByTabId s))
     @ (if list_ex (\<lambda>tab. allContentLoadedOf (snd tab) \<noteq> None) (navigationsByTabId s)
        then completedEnds (commands s) else [])"

record responsive =
  hasRecentErrors :: bool
  lastActivityDate :: int
  lastCommandName :: "string option"
  closeDate_r :: "int option"

definition checkForResponsive :: "('e, 'a) SessionState \<Rightarrow> responsive" where
  "checkForResponsive s =
     (let lastSuccessDate = lastSuccessDateOf s;
          hasRecentErrors =
            (case lastErrorTime s of None \<Rightarrow> False | Some e \<Rightarrow> e \<ge> lastSuccessDate);
          commandDate =
            (case lastCommand s of
               None \<Rightarrow> None
             | Some c \<Rightarrow> (case endDate c of Some e \<Rightarrow> Some e | None \<Rightarrow> startDate c));
          lastActivityDate =
            (case commandDate of
               None \<Rightarrow> lastSuccessDate
             | Some d \<Rightarrow> if d > lastSuccessDate then d else lastSuccessDate)
      in \<lparr>hasRecentErrors = hasRecentErrors, lastActivityDate = lastActivityDate,
          lastCommandName = map_option name_cmd (lastCommand s),
          closeDate_r = closeDate s\<rparr>)"

text \<open>
  A successful activity after time \<open>T\<close>, in the spec's words: an \<open>AllContentLoaded\<close> of
  a tab's current navigation later than \<open>T\<close>, or a completed command without an error
  that ended later than \<open>T\<close> while a tab's current navigation has its content loaded.
\<close>

definition laterSuccess :: "('e, 'a) SessionState \<Rightarrow> int \<Rightarrow> bool" where
  "laterSuccess s T =
     ((\<exists>tab \<in> set (navigationsByTabId s).
         case allContentLoadedOf (snd tab) of None \<Rightarrow> False | Some t \<Rightarrow> t > T)
      \<or> ((\<exists>tab \<in> set (navigationsByTabId s). allContentLoadedOf (snd tab) \<noteq> None)
          \<and> (\<exists>command \<in> set (commands s).
                case endDate command of
                  None \<Rightarrow> False
                | Some e \<Rightarrow> e > T \<and> \<not> isErrorResult command)))"

text \<open>An empty recorder created at time 0, and a session with two tabs for the examples.\<close>

definition newSession :: "(string, string) SessionState" where
  "newSession =
     \<lparr>sessionId = ''s1'', commands = [], navigationsByTabId = [], db_commands = [],
      db_websocketMessages = [],
      websocketMessages = [], websocketListeners = (\<lambda>_. None),
      browserRequestIdToResources = (\<lambda>_. None), delivered = [], errorsLogged = [],
      websocketMessageIdCounter = 0, lastErrorTime = None, createDate = 0, closeDate = None,
      clock = 0\<rparr>"

definition loadedNavigation :: INavigation where
  "loadedNavigation =
     \<lparr>navigationReason = ''goto'', startCommandId = 1, initiatedTime = 1,
      stateChanges = [(''HttpResponded'', 5), (''AllContentLoaded'', 10)]\<rparr>"

definition pendingNavigation :: INavigation where
  "pendingNavigation =
     \<lparr>navigationReason = ''newTab'', startCommandId = 2, initiatedTime = 30, stateChanges = []\<rparr>"

text \<open>A command that advances the clock to 7 and throws.\<close>

definition failingCommand :: "(string, string) SessionState \<Rightarrow> (string + string) \<times> (string, string) SessionState" where
  "failingCommand s = (Inl ''boom'', s\<lparr>clock := 7\<rparr>)"

text \<open>A recorder that knows two websocket resources, after three captures.\<close>

definition socketEvent :: "string \<Rightarrow> string \<Rightarrow> websocketEvent" where
  "socketEvent req msg = \<lparr>browserRequestId = req, isFromServer = True, message_ev = msg\<rparr>"

definition socketSession :: "(string, string) SessionState" where
  "socketSession =
     captureAll
       (newSession\<lparr>browserRequestIdToResources :=
          (\<lambda>_. None)(''r1'' \<mapsto> [(7, ''ws://a'')], ''r2'' \<mapsto> [(8, ''ws://b'')])\<rparr>)
       [socketEvent ''r1'' ''a'', socketEvent ''r2'' ''b'', socketEvent ''r1'' ''c'']"

definition socketMessage :: "int \<Rightarrow> string \<Rightarrow> nat \<Rightarrow> IWebsocketResourceMessage" where
  "socketMessage rid msg n = \<lparr>resourceId = rid, message = msg, messageId = n, source = ''server''\<rparr>"

text \<open>A session with an error at 20, one tab loaded at 10 and one tab opened at 30.\<close>

definition errorAt20 :: ILogEntry where
  "errorAt20 = \<lparr>sessionId_log = Some ''s1'', level = ''error'', timestamp = 20\<rparr>"

definition erroredSession :: "(string, string) SessionState" where
  "erroredSession =
     onLogEvent
       (newSession\<lparr>navigationsByTabId :=
                     [(''tab1'', [loadedNavigation]), (''tab2'', [pendingNavigation])]\<rparr>)
       errorAt20"

definition stuckSession :: "(string, string) SessionState" where
  "stuckSession =
     onLogEvent
       (newSession\<lparr>navigationsByTabId := [(''tab1'', [loadedNavigation])],
                   commands := [(demoCommand 1 ''goto'')\<lparr>startDate := Some 2,
                                                          endDate := Some 12\<rparr>]\<rparr>)
       errorAt20"

section \<open>CoreServerConnection\<close>

text \<open>
  What a command does when called: it returns data or throws. A thrown value is an
  \<open>Error\<close> instance (message, stack, and its own enumerable fields) or anything else,
  kept by the string that \<open>`${error}`\<close> renders.
\<close>

datatype thrown = ErrorInstance string string "(string \<times> string) list" | NotAnError string

datatype 'd outcome = Returns 'd | Throws thrown

text \<open>
  The \<open>data\<close> of a response: what the command returned, the plain object built from a
  caught error, or a new \<open>Error\<close> with a message.
\<close>

datatype 'd payloadData = Data 'd | ErrorObject "(string \<times> string) list" | NewError string

record ISessionMeta =
  sessionId_meta :: "string option"
  tabId_meta :: "string option"

record 'd ICoreRequestPayload =
  messageId_req :: string
  command_req :: string
  meta_req :: "ISessionMeta option"
  args_req :: "'d list"

record 'd ICoreResponsePayload =
  responseId :: string
  commandId :: "int option"
  data_res :: "'d payloadData"
  isError :: bool

datatype 'd connectionEvent = Message "'d ICoreResponsePayload" | Close

record 'd CoreServerConnection =
  isClosing :: bool
  isPersistent :: bool
  sessionIds :: "string list"
  emitted :: "'d connectionEvent list"

text \<open>
  Modelled from the spec: Session and Tab are not among the sources, and a command is
  looked up by name at run time. The environment gives, for a name, the member of the
  connection object it names (\<open>command in this\<close>): a method, which may change the
  connection, or a property that is no function; the tab \<open>Session.getTab(meta)\<close> finds,
  with its members by name and, for one that is no function, its \<open>typeof\<close>; and the id
  of the session's last command.
\<close>

datatype 'd member =
    Method "'d CoreServerConnection \<Rightarrow> ISessionMeta option \<Rightarrow> 'd list
              \<Rightarrow> 'd outcome \<times> 'd CoreServerConnection"
  | Property

datatype 'd tabMember =
    TabFunction "'d CoreServerConnection \<Rightarrow> 'd list \<Rightarrow> 'd outcome \<times> 'd CoreServerConnection"
  | TabValue string

datatype 'd tabLookup = TabFound "string \<Rightarrow> 'd tabMember option" | TabUndefined | TabThrows thrown

record 'd environment =
  members :: "string \<Rightarrow> 'd member option"
  getTab :: "ISessionMeta option \<Rightarrow> 'd tabLookup"
  lastCommandIdOf :: "string \<Rightarrow> int option"

text \<open>A TypeError raised by the runtime is an \<open>Error\<close> instance with no fields of its own.\<close>

definition typeError :: "string \<Rightarrow> thrown" where
  "typeError msg = ErrorInstance msg (''TypeError: '' @ msg) []"

text \<open>The \<open>try\<close> block: the data returned, the value thrown, or no such function on the tab.\<close>

datatype 'd attempt = Succeeded 'd | Threw thrown | NotOnTab string

definition tryCommand ::
  "'d environment \<Rightarrow> 'd CoreServerConnection \<Rightarrow> 'd ICoreRequestPayload
     \<Rightarrow> 'd attempt \<times> 'd CoreServerConnection"
where
  "tryCommand env conn payload =
     (case members env (command_req payload) of
        Some (Method f) \<Rightarrow>
          (case f conn (meta_req payload) (args_req payload) of
             (Returns d, conn1) \<Rightarrow> (Succeeded d, conn1)
           | (Throws e, conn1) \<Rightarrow> (Threw e, conn1))
      | Some Property \<Rightarrow> (Threw (typeError ''this[command] is not a function''), conn)
      | None \<Rightarrow>
          (case getTab env (meta_req payload) of
             TabThrows e \<Rightarrow> (Threw e, conn)
           | TabUndefined \<Rightarrow> (Threw (typeError ''Cannot read property of undefined''), conn)
           | TabFound tab \<Rightarrow>
               (case tab (command_req payload) of
                  Some (TabFunction f) \<Rightarrow>
                    (case f conn (args_req payload) of
                       (Returns d, conn1) \<Rightarrow> (Succeeded d, conn1)
                     | (Throws e, conn1) \<Rightarrow> (Threw e, conn1))
                | Some (TabValue ty) \<Rightarrow> (NotOnTab ty, conn)
                | None \<Rightarrow> (NotOnTab ''undefined'', conn))))"

text \<open>
  The \<open>catch\<close> block: \<open>{message, stack, ...error}\<close> for an \<open>Error\<close> instance (a
  spread field of the same name takes the place of the earlier one), a new \<open>Error\<close>
  otherwise.
\<close>

definition errorData :: "thrown \<Rightarrow> 'd payloadData" where
  "errorData e =
     (case e of
        ErrorInstance msg stack extras \<Rightarrow>
          ErrorObject
            (foldl (\<lambda>obj kv. mapSet obj (fst kv) (snd kv))
               [(''message'', msg), (''stack'', stack)] extras)
      | NotAnError str \<Rightarrow> NewError (''Unknown error occurred '' @ str))"

definition commandIdOf :: "'d environment \<Rightarrow> ISessionMeta option \<Rightarrow> int option" where
  "commandIdOf env meta =
     (case meta of
        None \<Rightarrow> None
      | Some m \<Rightarrow>
          (case sessionId_meta m of
             None \<Rightarrow> None
           | Some sid \<Rightarrow> if sid = [] then None else lastCommandIdOf env sid))"

definition handleRequest ::
  "'d environment \<Rightarrow> 'd CoreServerConnection \<Rightarrow> 'd ICoreRequestPayload
     \<Rightarrow> 'd CoreServerConnection"
where
  "handleRequest env conn payload =
     (case tryCommand env conn payload of
        (attempt, conn1) \<Rightarrow>
          let dataAndError =
                (case attempt of
                   Succeeded d \<Rightarrow> (Data d, False)
                 | NotOnTab ty \<Rightarrow>
                     (NewError (''Command not available on tab ('' @ command_req payload
                                 @ '' - '' @ ty @ '')''), True)
                 | Threw e \<Rightarrow> (errorData e, True));
              response =
                \<lparr>responseId = messageId_req payload,
                 commandId = commandIdOf env (meta_req payload),
                 data_res = fst dataAndError, isError = snd dataAndError\<rparr>
          in conn1\<lparr>emitted := emitted conn1 @ [Message response]\<rparr>)"

text \<open>The response of a failed command.\<close>

definition errorResponse ::
  "'d environment \<Rightarrow> 'd ICoreRequestPayload \<Rightarrow> 'd payloadData \<Rightarrow> 'd ICoreResponsePayload"
where
  "errorResponse env payload d =
     \<lparr>responseId = messageId_req payload, commandId = commandIdOf env (meta_req payload),
      data_res = d, isError = True\<rparr>"

text \<open>Whether a response's data is an error payload.\<close>

fun isErrorPayload :: "'d payloadData \<Rightarrow> bool" where
  "isErrorPayload (Data d) = False"
| "isErrorPayload (ErrorObject obj) =
     (map_of obj ''message'' \<noteq> None \<and> map_of obj ''stack'' \<noteq> None)"
| "isErrorPayload (NewError msg) = True"

text \<open>
  A connection whose only method is \<open>createSession\<close>, which throws once the connection
  is closing, and a tab with two functions: one throws a string, the other an error with
  a field of its own.
\<close>

definition demoTab :: "string \<Rightarrow> string tabMember option" where
  "demoTab =
     (\<lambda>_. None)(''goto'' \<mapsto>
        TabFunction (\<lambda>conn args. (Throws (NotAnError ''timeout''), conn)),
      ''waitForElement'' \<mapsto>
        TabFunction (\<lambda>conn args.
          (Throws (ErrorInstance ''Timeout waiting for element''
                     ''Error: Timeout waiting for element'' [(''code'', ''ERR_TIMEOUT'')]),
           conn)))"

definition demoEnvironment :: "string environment" where
  "demoEnvironment =
     \<lparr>members = (\<lambda>_. None)(''createSession'' \<mapsto>
          Method (\<lambda>conn meta args.
            if isClosing conn
            then (Throws (ErrorInstance ''Connection closed'' ''Error: Connection closed'' []), conn)
            else (Returns ''session'', conn)),
        ''isClosing'' \<mapsto> Property),
      getTab = (\<lambda>meta. case meta of
                  None \<Rightarrow> TabUndefined
                | Some m \<Rightarrow> TabFound demoTab),
      lastCommandIdOf = (\<lambda>_. Some 3)\<rparr>"

definition demoConnection :: "string CoreServerConnection" where
  "demoConnection = \<lparr>isClosing = False, isPersistent = False, sessionIds = [''s1''], emitted = []\<rparr>"

definition demoRequest :: "string \<Rightarrow> string \<Rightarrow> string ICoreRequestPayload" where
  "demoRequest mid cmd =
     \<lparr>messageId_req = mid, command_req = cmd,
      meta_req = Some \<lparr>sessionId_meta = Some ''s1'', tabId_meta = Some ''t1''\<rparr>, args_req = []\<rparr>"

section \<open>Session pool\<close>

text \<open>
  Modelled from the spec: GlobalPool is not among the sources;
  \<open>CoreServerConnection.createSession\<close> awaits \<open>GlobalPool.createSession\<close> and
  registers the session it gets. The spec: the pool holds at most
  \<open>maxConcurrentAgentsCount\<close> open sessions; a creation request at capacity suspends (it
  does not fail) until a slot frees; closing a session releases its slot and lets the
  next queued creation proceed; admission is atomic. Control is a single thread with
  cooperative suspension, so a run of the pool is a sequence of events, each handled
  to its end: a creation request (named by a number) or the close of a session.
  \<open>created\<close> logs the requests that completed, with the session each got.
\<close>

record GlobalPool =
  maxConcurrentAgentsCount :: nat
  openSessions :: "nat list"
  waitingForAvailability :: "nat list"
  created :: "(nat \<times> nat) list"
  nextSession :: nat

datatype poolEvent = CreateSession nat | CloseSession nat

definition newPool :: "nat \<Rightarrow> GlobalPool" where
  "newPool k =
     \<lparr>maxConcurrentAgentsCount = k, openSessions = [], waitingForAvailability = [],
      created = [], nextSession = 0\<rparr>"

definition createSessionNow :: "nat \<Rightarrow> GlobalPool \<Rightarrow> GlobalPool" where
  "createSessionNow request p =
     p\<lparr>openSessions := openSessions p @ [nextSession p],
       created := created p @ [(request, nextSession p)],
       nextSession := Suc (nextSession p)\<rparr>"

definition createSession :: "nat \<Rightarrow> GlobalPool \<Rightarrow> GlobalPool" where
  "createSession request p =
     (if length (openSessions p) \<ge> maxConcurrentAgentsCount p
      then p\<lparr>waitingForAvailability := waitingForAvailability p @ [request]\<rparr>
      else createSessionNow request p)"

definition closeSession :: "nat \<Rightarrow> GlobalPool \<Rightarrow> GlobalPool" where
  "closeSession session p =
     (if session \<notin> set (openSessions p) then p
      else
        let p1 = p\<lparr>openSessions := remove1 session (openSessions p)\<rparr>
        in case waitingForAvailability p1 of
             [] \<Rightarrow> p1
           | request # rest \<Rightarrow> createSessionNow request (p1\<lparr>waitingForAvailability := rest\<rparr>))"

fun poolStep :: "GlobalPool \<Rightarrow> poolEvent \<Rightarrow> GlobalPool" where
  "poolStep p (CreateSession request) = createSession request p"
| "poolStep p (CloseSession session) = closeSession session p"

definition poolRun :: "GlobalPool \<Rightarrow> poolEvent list \<Rightarrow> GlobalPool" where
  "poolRun p events = foldl poolStep p events"

definition completed :: "GlobalPool \<Rightarrow> nat \<Rightarrow> bool" where
  "completed p request = (request \<in> fst ` set (created p))"

text \<open>
  What holds of every state the pool reaches: no more open sessions than the capacity,
  and requests wait only while the pool is full.
\<close>

definition poolOk :: "GlobalPool \<Rightarrow> bool" where
  "poolOk p =
     (length (openSessions p) \<le> maxConcurrentAgentsCount p
      \<and> (waitingForAvailability p = [] \<or> length (openSessions p) = maxConcurrentAgentsCount p))"

section \<open>Properties\<close>

lemma scanCommands_snoc:
  "scanCommands (cs @ [c]) lst d =
     (case scanCommands cs lst d of
        (l, d0) \<Rightarrow>
          (Some c,
           if (case l of None \<Rightarrow> False | Some x \<Rightarrow> isWaitFor x) \<and> \<not> isWaitFor c then id_cmd c
           else if name_cmd c = ''goto'' then id_cmd c else d0))"
  by (induction cs arbitrary: lst d) (auto simp: Let_def)

lemma scanCommands_last:
  "fst (scanCommands cs lst d) = (if cs = [] then lst else Some (last cs))"
  by (induction cs arbitrary: lst d) (auto simp: Let_def)

lemma isAnchorAt_snoc_old:
  "i < length cs \<Longrightarrow> isAnchorAt (cs @ [c]) i = isAnchorAt cs i"
  by (auto simp: isAnchorAt_def nth_append)

lemma isAnchorAt_snoc_new:
  "isAnchorAt (cs @ [c]) (length cs) =
     (name_cmd c = ''goto'' \<or> (cs \<noteq> [] \<and> isWaitFor (last cs) \<and> \<not> isWaitFor c))"
  by (auto simp: isAnchorAt_def nth_append last_conv_nth)

lemma filter_anchor_snoc:
  "filter (isAnchorAt (cs @ [c])) [0..<length (cs @ [c])] =
     filter (isAnchorAt cs) [0..<length cs] @
     (if isAnchorAt (cs @ [c]) (length cs) then [length cs] else [])"
proof -
  have "filter (isAnchorAt (cs @ [c])) [0..<length cs] = filter (isAnchorAt cs) [0..<length cs]"
    by (rule filter_cong) (auto simp: isAnchorAt_snoc_old)
  then show ?thesis by simp
qed

lemma specAnchor_snoc:
  "specAnchor (cs @ [c]) =
     (if name_cmd c = ''goto'' \<or> (cs \<noteq> [] \<and> isWaitFor (last cs) \<and> \<not> isWaitFor c)
      then Some (id_cmd c) else specAnchor cs)"
proof -
  have f: "filter (isAnchorAt cs) [0..<length cs] = i # rest \<Longrightarrow> last (i # rest) < length cs" for i rest
  proof -
    assume a: "filter (isAnchorAt cs) [0..<length cs] = i # rest"
    have "last (i # rest) \<in> set (filter (isAnchorAt cs) [0..<length cs])"
      unfolding a by (rule last_in_set) simp
    then show ?thesis by simp
  qed
  show ?thesis
    unfolding specAnchor_def filter_anchor_snoc isAnchorAt_snoc_new
    by (auto split: list.splits simp: nth_append dest: f)
qed

lemma scanCommands_spec:
  "snd (scanCommands cs None d) = (case specAnchor cs of None \<Rightarrow> d | Some a \<Rightarrow> a)"
proof (induction cs rule: rev_induct)
  case Nil
  then show ?case by (simp add: specAnchor_def)
next
  case (snoc c cs)
  have l: "fst (scanCommands cs None d) = (if cs = [] then None else Some (last cs))"
    by (rule scanCommands_last)
  show ?case
    using snoc l
    by (auto simp: scanCommands_snoc specAnchor_snoc split: prod.splits option.splits if_splits)
qed

text \<open>
  Claim C9. For every new command and every list of previous commands,
  \<open>willRunCommand\<close> leaves in \<open>defaultWaitForLocationCommandId\<close> the id of the last
  previous command that is a \<open>goto\<close> or the first non-\<open>waitFor*\<close> command after a run
  of \<open>waitFor*\<close> commands (the marker keeps its value when there is none); and when
  the new command is \<open>waitForLocation\<close> and the last previous command is a
  \<open>waitFor*\<close> command, the marker is the new command's own id.
\<close>

theorem willRunCommand_anchor:
  "defaultWaitForLocationCommandId (willRunCommand t newCommand previousCommands) =
     (if name_cmd newCommand = ''waitForLocation'' \<and> previousCommands \<noteq> []
         \<and> isWaitFor (last previousCommands)
      then id_cmd newCommand
      else case specAnchor previousCommands of
             None \<Rightarrow> defaultWaitForLocationCommandId t
           | Some a \<Rightarrow> a)"
proof -
  obtain lst d where s: "scanCommands previousCommands None (defaultWaitForLocationCommandId t) = (lst, d)"
    by (cases "scanCommands previousCommands None (defaultWaitForLocationCommandId t)")
  have l: "lst = (if previousCommands = [] then None else Some (last previousCommands))"
    using scanCommands_last [of previousCommands None "defaultWaitForLocationCommandId t"] s by simp
  have d: "d = (case specAnchor previousCommands of None \<Rightarrow> defaultWaitForLocationCommandId t | Some a \<Rightarrow> a)"
    using scanCommands_spec [of previousCommands "defaultWaitForLocationCommandId t"] s by simp
  show ?thesis
    unfolding willRunCommand_def s using l d by (auto split: option.splits)
qed

lemma drainCbs_append: "drainCbs q called = called @ q"
  by (induction q arbitrary: called) auto

lemma pipelineKeys_eq:
  "pipelineKeys = [''NavigationRequested'', ''HttpRequested'', ''HttpRedirected'',
      ''HttpResponded'', ''DomContentLoaded'', ''AllContentLoaded'']"
  by (simp add: pipelineKeys_def PipelineStatus_entries_def)

lemma length_pipelineKeys: "length pipelineKeys = 6"
  by (simp add: pipelineKeys_eq)

lemma distinct_pipelineKeys: "distinct pipelineKeys"
  by (simp add: pipelineKeys_eq)

lemma PipelineStatus_Some_iff:
  "PipelineStatus status = Some j \<longleftrightarrow> j < 6 \<and> pipelineKeys ! j = status"
proof
  assume "PipelineStatus status = Some j"
  then show "j < 6 \<and> pipelineKeys ! j = status"
    by (auto simp: PipelineStatus_def PipelineStatus_entries_def pipelineKeys_eq split: if_splits)
next
  assume a: "j < 6 \<and> pipelineKeys ! j = status"
  then have "j = 0 \<or> j = 1 \<or> j = 2 \<or> j = 3 \<or> j = 4 \<or> j = 5" by arith
  with a show "PipelineStatus status = Some j"
    by (auto simp: PipelineStatus_def PipelineStatus_entries_def pipelineKeys_eq)
qed

lemma getStepByStatus_bound: "getStepByStatus status = Some j \<Longrightarrow> j < 6"
  by (simp add: getStepByStatus_def PipelineStatus_Some_iff)

lemma maxStepOver_bound: "m < 6 \<Longrightarrow> maxStepOver ks m < 6"
  by (induction ks arbitrary: m) (auto split: option.splits dest: getStepByStatus_bound)

lemma maxStepOver_ge: "m \<le> maxStepOver ks m"
proof (induction ks arbitrary: m)
  case Nil
  then show ?case by simp
next
  case (Cons k ks)
  show ?case
  proof (cases "getStepByStatus k")
    case None
    then show ?thesis using Cons [of m] by simp
  next
    case (Some step)
    then show ?thesis using Cons [of m] Cons [of step] by (auto simp: le_trans less_imp_le)
  qed
qed

lemma maxStepOver_mono: "m \<le> m' \<Longrightarrow> maxStepOver ks m \<le> maxStepOver ks m'"
proof (induction ks arbitrary: m m')
  case Nil
  then show ?case by simp
next
  case (Cons k ks)
  show ?case
  proof (cases "getStepByStatus k")
    case None
    then show ?thesis using Cons.IH [OF Cons.prems] by simp
  next
    case (Some step)
    then show ?thesis
      using Cons.IH [OF Cons.prems] Cons.IH [of step step] Cons.IH [of m step] Cons.IH [of step m'] Cons.prems
      by auto
  qed
qed

lemma maxStepOver_append: "maxStepOver (ks @ ks') m = maxStepOver ks' (maxStepOver ks m)"
  by (induction ks arbitrary: m) (auto split: option.splits)

lemma currentStep_bound: "currentStep t < 6"
  by (simp add: currentStep_def getPipelineStatus_def maxStepOver_bound split: option.splits)

lemma wokenFrom_0: "wokenFrom step 0 newStep = []"
  by (simp add: wokenFrom_def)

lemma wokenFrom_Suc:
  "wokenFrom step (Suc k) newStep =
     (if pipelineKeys ! step \<noteq> ''HttpRedirected'' \<or> step = newStep then [pipelineKeys ! step] else [])
     @ wokenFrom (Suc step) k newStep"
proof -
  have "[step..<step + Suc k] = step # [Suc step..<Suc step + k]"
    by (simp add: upt_conv_Cons del: upt_Suc)
  then show ?thesis
    unfolding wokenFrom_def by simp
qed

lemma notin_wokenFrom:
  "step + k \<le> 6 \<Longrightarrow> i < step \<Longrightarrow> pipelineKeys ! i \<notin> set (wokenFrom step k newStep)"
  using distinct_pipelineKeys length_pipelineKeys
  by (auto simp: wokenFrom_def nth_eq_iff_index_eq)

lemma updateSteps_char:
  "step + k \<le> 6 \<Longrightarrow>
   updateSteps k step newStep t =
     Inr (t\<lparr>resolved := resolved t @ concat (map (waitForCbs t) (wokenFrom step k newStep)),
            waitForCbs := (\<lambda>st. if st \<in> set (wokenFrom step k newStep) then [] else waitForCbs t st)\<rparr>)"
proof (induction k arbitrary: step t)
  case 0
  then show ?case by (simp add: wokenFrom_0)
next
  case (Suc k)
  let ?status = "pipelineKeys ! step"
  have key: "keyAt pipelineKeys step = Some ?status"
    using Suc.prems by (simp add: keyAt_def length_pipelineKeys)
  have notin: "?status \<notin> set (wokenFrom (Suc step) k newStep)"
    using Suc.prems by (intro notin_wokenFrom) auto
  have same: "map (waitForCbs (runWaitForCbs t ?status)) (wokenFrom (Suc step) k newStep)
                = map (waitForCbs t) (wokenFrom (Suc step) k newStep)"
    using notin by (auto simp: runWaitForCbs_def)
  have le: "Suc step + k \<le> 6" using Suc.prems by simp
  show ?case
  proof (cases "?status \<noteq> ''HttpRedirected'' \<or> step = newStep")
    case True
    let ?t1 = "runWaitForCbs t ?status"
    let ?W = "wokenFrom (Suc step) k newStep"
    have r1: "resolved ?t1 = resolved t @ waitForCbs t ?status"
      by (simp add: runWaitForCbs_def drainCbs_append)
    have w1: "(\<lambda>st. if st \<in> set ?W then [] else waitForCbs ?t1 st)
                = (\<lambda>st. if st = ?status \<or> st \<in> set ?W then [] else waitForCbs t st)"
      by (auto simp: runWaitForCbs_def fun_eq_iff)
    have step1: "updateSteps (Suc k) step newStep t = updateSteps k (Suc step) newStep ?t1"
      using key True by simp
    have w: "wokenFrom step (Suc k) newStep = ?status # ?W"
      using True by (simp add: wokenFrom_Suc)
    show ?thesis
      unfolding step1 Suc.IH [OF le, of ?t1] w r1 same w1
      by (simp add: runWaitForCbs_def)
  next
    case False
    have step1: "updateSteps (Suc k) step newStep t = updateSteps k (Suc step) newStep t"
      using key False by simp
    have w: "wokenFrom step (Suc k) newStep = wokenFrom (Suc step) k newStep"
      using False by (simp add: wokenFrom_Suc)
    show ?thesis
      unfolding step1 Suc.IH [OF le, of t] w by simp
  qed
qed

lemma wokenFrom_wokenStatuses: "s \<le> n \<Longrightarrow> wokenFrom (Suc s) (n - s) n = wokenStatuses s n"
  by (simp add: wokenFrom_def wokenStatuses_def)

lemma onPipelineStatusChange_advance:
  assumes "getStepByStatus newStatus = Some n" and "currentStep t < n"
  shows "onPipelineStatusChange t newStatus =
     Inr (t\<lparr>resolved := resolved t @ concat (map (waitForCbs t) (wokenStatuses (currentStep t) n)),
            waitForCbs := (\<lambda>st. if st \<in> set (wokenStatuses (currentStep t) n) then []
                                 else waitForCbs t st)\<rparr>)"
proof -
  have n: "n < 6" using assms(1) by (rule getStepByStatus_bound)
  have le: "Suc (currentStep t) + (n - currentStep t) \<le> 6" using n assms(2) by simp
  show ?thesis
    using assms updateSteps_char [OF le, of n t] wokenFrom_wokenStatuses [of "currentStep t" n]
    by (simp add: onPipelineStatusChange_def Let_def)
qed

lemma onPipelineStatusChange_stay:
  assumes "getStepByStatus newStatus = None \<or> (\<exists>n. getStepByStatus newStatus = Some n \<and> n \<le> currentStep t)"
  shows "onPipelineStatusChange t newStatus = Inr t"
  using assms by (auto simp: onPipelineStatusChange_def Let_def)

lemma mem_wokenStatuses:
  assumes "n < 6"
  shows "status \<in> set (wokenStatuses s n) \<longleftrightarrow>
     (\<exists>j. PipelineStatus status = Some j \<and> s < j \<and> j \<le> n \<and> (status \<noteq> ''HttpRedirected'' \<or> j = n))"
proof
  assume "status \<in> set (wokenStatuses s n)"
  then obtain j where j: "status = pipelineKeys ! j" "Suc s \<le> j" "j < Suc n"
      "pipelineKeys ! j \<noteq> ''HttpRedirected'' \<or> j = n"
    by (auto simp: wokenStatuses_def)
  then have "PipelineStatus status = Some j \<and> s < j \<and> j \<le> n \<and> (status \<noteq> ''HttpRedirected'' \<or> j = n)"
    using assms by (simp add: PipelineStatus_Some_iff)
  then show "\<exists>j. PipelineStatus status = Some j \<and> s < j \<and> j \<le> n \<and> (status \<noteq> ''HttpRedirected'' \<or> j = n)"
    by blast
next
  assume "\<exists>j. PipelineStatus status = Some j \<and> s < j \<and> j \<le> n \<and> (status \<noteq> ''HttpRedirected'' \<or> j = n)"
  then obtain j where j: "PipelineStatus status = Some j" "s < j" "j \<le> n"
      "status \<noteq> ''HttpRedirected'' \<or> j = n"
    by blast
  then have "j \<in> set (filter (\<lambda>j. pipelineKeys ! j \<noteq> ''HttpRedirected'' \<or> j = n) [Suc s..<Suc n])"
    by (auto simp: PipelineStatus_Some_iff)
  then have "pipelineKeys ! j \<in> set (wokenStatuses s n)"
    unfolding wokenStatuses_def by (simp only: set_map image_eqI)
  then show "status \<in> set (wokenStatuses s n)"
    using j(1) by (simp add: PipelineStatus_Some_iff)
qed

lemma distinct_wokenStatuses: "n < 6 \<Longrightarrow> distinct (wokenStatuses s n)"
  using distinct_pipelineKeys length_pipelineKeys
  by (auto simp: wokenStatuses_def distinct_map inj_on_def nth_eq_iff_index_eq)

lemma count_list_distinct_one: "distinct xs \<Longrightarrow> p \<in> set xs \<Longrightarrow> count_list xs p = 1"
  by (induction xs) auto

lemma count_list_concat_one:
  assumes "distinct W" and "\<forall>w \<in> set W. distinct (f w)"
    and "\<forall>w \<in> set W. \<forall>w' \<in> set W. w = w' \<or> set (f w) \<inter> set (f w') = {}"
    and "w0 \<in> set W" and "p \<in> set (f w0)"
  shows "count_list (concat (map f W)) p = 1"
  using assms
proof (induction W)
  case Nil
  then show ?case by simp
next
  case (Cons w W)
  show ?case
  proof (cases "w0 = w")
    case True
    have d: "distinct (f w)" using Cons.prems(2) by simp
    have one: "count_list (f w) p = 1"
      using d Cons.prems(5) True by (simp add: count_list_distinct_one)
    have "\<forall>w' \<in> set W. p \<notin> set (f w')"
      using Cons.prems(1,3,5) True by fastforce
    then have "p \<notin> set (concat (map f W))" by auto
    then show ?thesis using one by simp
  next
    case False
    then have in_W: "w0 \<in> set W" using Cons.prems(4) by simp
    have "p \<notin> set (f w)"
      using Cons.prems(3,5) False in_W by fastforce
    moreover have "count_list (concat (map f W)) p = 1"
      using Cons.prems in_W by (intro Cons.IH) auto
    ultimately show ?thesis by simp
  qed
qed

lemma wokenStatuses_subset: "n < 6 \<Longrightarrow> set (wokenStatuses s n) \<subseteq> set statusKeys"
  by (auto simp: wokenStatuses_def statusKeys_def length_pipelineKeys)

lemma woken_count_one:
  assumes ok: "trackerOk t" and n: "n < 6" and w: "status \<in> set (wokenStatuses s n)"
    and p: "p \<in> set (waitForCbs t status)"
  shows "count_list (resolved t @ concat (map (waitForCbs t) (wokenStatuses s n))) p = 1"
proof -
  have sub: "set (wokenStatuses s n) \<subseteq> set statusKeys" using n by (rule wokenStatuses_subset)
  have st: "status \<in> set statusKeys" using sub w by blast
  have "p \<notin> set (resolved t)" using ok st p unfolding trackerOk_def by blast
  moreover have "count_list (concat (map (waitForCbs t) (wokenStatuses s n))) p = 1"
  proof (rule count_list_concat_one [where ?w0.0 = status])
    show "distinct (wokenStatuses s n)" using n by (rule distinct_wokenStatuses)
    show "status \<in> set (wokenStatuses s n)" by (rule w)
    show "p \<in> set (waitForCbs t status)" by (rule p)
    show "\<forall>w\<in>set (wokenStatuses s n). distinct (waitForCbs t w)"
      using ok sub unfolding trackerOk_def by blast
    show "\<forall>w\<in>set (wokenStatuses s n). \<forall>w'\<in>set (wokenStatuses s n).
            w = w' \<or> set (waitForCbs t w) \<inter> set (waitForCbs t w') = {}"
      using ok sub unfolding trackerOk_def by blast
  qed
  ultimately show ?thesis by simp
qed




lemma statusKeys_eq:
  "statusKeys = [''reload'', ''change'', ''NavigationRequested'', ''HttpRequested'',
     ''HttpRedirected'', ''HttpResponded'', ''DomContentLoaded'', ''AllContentLoaded'']"
  by (simp add: statusKeys_def pipelineKeys_eq)

lemma currentStep_demoTracker: "currentStep demoTracker = 1"
  by (simp add: currentStep_def demoTracker_def demoNavigation_def top_def getPipelineStatus_def
      getStepByStatus_def PipelineStatus_def PipelineStatus_entries_def)

lemma trackerOk_demoTracker: "trackerOk demoTracker"
  by (simp add: trackerOk_def demoTracker_def statusKeys_eq)

lemma wokenStatuses_1_3: "wokenStatuses 1 3 = [''HttpResponded'']"
  by (simp add: wokenStatuses_def pipelineKeys_eq upt_conv_Cons del: upt_Suc)


lemma trackerOk_newTracker: "trackerOk (newTracker navs)"
  by (simp add: trackerOk_def newTracker_def)

lemma trackerOk_runWaitForCbs:
  assumes "trackerOk t" and "status \<in> set statusKeys"
  shows "trackerOk (runWaitForCbs t status)"
  using assms unfolding trackerOk_def runWaitForCbs_def drainCbs_append
  by (simp add: disjoint_iff) blast

lemma LocationStatus_Some_iff: "LocationStatus status \<noteq> None \<longleftrightarrow> status \<in> set statusKeys"
  by (simp add: LocationStatus_def statusKeys_eq)

lemma lookup_Own: "table key = Some v \<Longrightarrow> lookup table key = Own v"
  by (simp add: lookup_def)

lemma lookup_None:
  "table key = None \<Longrightarrow>
   lookup table key = (if key \<in> set objectPrototypeKeys then Inherited else Undefined)"
  by (simp add: lookup_def)

lemma statusKeys_not_inherited: "status \<in> set statusKeys \<Longrightarrow> status \<notin> set objectPrototypeKeys"
  by (auto simp: statusKeys_eq objectPrototypeKeys_def)

lemma LocationStatus_nonempty: "LocationStatus status = Some v \<Longrightarrow> v \<noteq> []"
  by (auto simp: LocationStatus_def split: if_splits)

lemma LocationStatus_truthy:
  "truthyString (lookup LocationStatus status)
     \<longleftrightarrow> LocationStatus status \<noteq> None \<or> status \<in> set objectPrototypeKeys"
  by (cases "LocationStatus status") (auto simp: lookup_def dest: LocationStatus_nonempty)





lemma getTrigger_cases:
  "getTriggerForNavigationReason reason =
     (if reason = ''newTab'' then None
      else if reason = ''httpHeaderRefresh'' \<or> reason = ''metaTagRefresh'' \<or> reason = ''reload''
      then Some ''reload'' else Some ''change'')"
  by (simp add: getTriggerForNavigationReason_def LocationTrigger_def)






lemma pipeline_status_facts:
  assumes "PipelineStatus status = Some k"
  shows "status \<noteq> READY" and "truthyString (lookup LocationStatus status)"
    and "lookup LocationTrigger status = Undefined" and "status \<in> set statusKeys"
    and "lookup PipelineStatus status = Own k" and "LocationStatus status \<noteq> None"
proof -
  have "status \<in> set pipelineKeys"
    using assms length_pipelineKeys by (auto simp: PipelineStatus_Some_iff)
  then have s: "status = ''NavigationRequested'' \<or> status = ''HttpRequested''
      \<or> status = ''HttpRedirected'' \<or> status = ''HttpResponded''
      \<or> status = ''DomContentLoaded'' \<or> status = ''AllContentLoaded''"
    by (simp add: pipelineKeys_eq)
  show "status \<noteq> READY" using s by (auto simp: READY_def)
  show k: "status \<in> set statusKeys" using s by (auto simp: statusKeys_eq)
  show l: "LocationStatus status \<noteq> None" using k LocationStatus_Some_iff by blast
  show "truthyString (lookup LocationStatus status)" using l by (simp add: LocationStatus_truthy)
  have "LocationTrigger status = None" using s by (auto simp: LocationTrigger_def)
  then show "lookup LocationTrigger status = Undefined"
    using statusKeys_not_inherited [OF k] by (simp add: lookup_None)
  show "lookup PipelineStatus status = Own k" using assms by (rule lookup_Own)
qed

lemma waitFor_pipeline:
  assumes "PipelineStatus status = Some k"
  shows "waitFor t status sinceCommandId inclusive =
     (if k \<noteq> 0 \<and> k \<le> currentStep t then (Returned, t)
      else (Pending (nextPromise t),
            t\<lparr>waitForCbs := (waitForCbs t)(status := waitForCbs t status @ [nextPromise t]),
              nextPromise := Suc (nextPromise t)\<rparr>))"
proof -
  obtain v where v: "LocationStatus status = Some v"
    using pipeline_status_facts(6) [OF assms] by blast
  show ?thesis
    unfolding waitFor_def Let_def getStepByStatus_def
    using assms v pipeline_status_facts(1-3,5) [OF assms] by simp
qed

lemma currentStep_recordLifecycleEvent:
  "currentStep t \<le> currentStep (t\<lparr>navigations := recordLifecycleEvent (navigations t) ev\<rparr>)"
proof (cases "navigations t = []")
  case True
  then show ?thesis by (simp add: recordLifecycleEvent_def currentStep_def top_def)
next
  case False
  have m: "maxStepOver (map fst kvs) a \<le> maxStepOver (map fst (mapSet kvs k v)) a" for kvs k v a
  proof (induction kvs arbitrary: a)
    case Nil
    show ?case using maxStepOver_ge [of a "[k]"] by simp
  next
    case (Cons kv kvs)
    obtain k' v' where kv: "kv = (k', v')" by (cases kv)
    show ?case
      unfolding kv using Cons.IH by (auto split: option.splits)
  qed
  show ?thesis
    using False m by (simp add: currentStep_def top_def recordLifecycleEvent_def getPipelineStatus_def)
qed

lemma currentStep_recordStatuses: "currentStep t \<le> currentStep (recordStatuses t evs)"
proof (induction evs arbitrary: t)
  case Nil
  then show ?case by (simp add: recordStatuses_def)
next
  case (Cons ev evs)
  let ?t1 = "t\<lparr>navigations := recordLifecycleEvent (navigations t) ev\<rparr>"
  have "recordStatuses t (ev # evs) = recordStatuses ?t1 evs"
    by (simp add: recordStatuses_def)
  then show ?case
    using Cons.IH [of ?t1] currentStep_recordLifecycleEvent [of t ev] by simp
qed

lemma resolved_untouched:
  assumes ok: "trackerOk t" and st: "status \<in> set statusKeys" and n: "n < 6"
    and notin: "status \<notin> set (wokenStatuses s n)" and p: "p \<in> set (waitForCbs t status)"
  shows "count_list (resolved t @ concat (map (waitForCbs t) (wokenStatuses s n))) p = 0"
proof -
  have sub: "set (wokenStatuses s n) \<subseteq> set statusKeys" using n by (rule wokenStatuses_subset)
  have a: "p \<notin> set (resolved t)" using ok st p unfolding trackerOk_def by blast
  have "\<forall>w \<in> set (wokenStatuses s n). p \<notin> set (waitForCbs t w)"
  proof
    fix w assume w: "w \<in> set (wokenStatuses s n)"
    then have "w \<in> set statusKeys" and "status \<noteq> w" using sub notin by auto
    then have "set (waitForCbs t status) \<inter> set (waitForCbs t w) = {}"
      using ok st unfolding trackerOk_def by blast
    then show "p \<notin> set (waitForCbs t w)" using p by blast
  qed
  then have "p \<notin> set (concat (map (waitForCbs t) (wokenStatuses s n)))" by auto
  then show ?thesis using a by simp
qed

lemma not_before:
  assumes st: "PipelineStatus status = Some k"
    and early: "getStepByStatus newStatus = None \<or> (\<exists>n. getStepByStatus newStatus = Some n \<and> n < k)"
  shows "\<exists>t'. onPipelineStatusChange t newStatus = Inr t'
           \<and> waitForCbs t' status = waitForCbs t status
           \<and> (trackerOk t \<longrightarrow> (\<forall>p \<in> set (waitForCbs t status). count_list (resolved t') p = 0))"
proof (cases "getStepByStatus newStatus = None \<or> (\<exists>n. getStepByStatus newStatus = Some n \<and> n \<le> currentStep t)")
  case True
  have q: "trackerOk t \<longrightarrow> (\<forall>p \<in> set (waitForCbs t status). p \<notin> set (resolved t))"
    using pipeline_status_facts(4) [OF st] unfolding trackerOk_def by blast
  show ?thesis
    using onPipelineStatusChange_stay [OF True] q by simp
next
  case False
  then obtain n where n: "getStepByStatus newStatus = Some n" "currentStep t < n" "n < k"
    using early by force
  have n6: "n < 6" using n(1) by (rule getStepByStatus_bound)
  have notin: "status \<notin> set (wokenStatuses (currentStep t) n)"
    using st n(3) by (auto simp: mem_wokenStatuses [OF n6])
  show ?thesis
    unfolding onPipelineStatusChange_advance [OF n(1,2)]
    using notin resolved_untouched [OF _ pipeline_status_facts(4) [OF st] n6 notin]
    by simp
qed

lemma when_reached:
  assumes st: "PipelineStatus status = Some k"
    and cur: "currentStep t < k" and n: "getStepByStatus newStatus = Some n" and kn: "k \<le> n"
    and red: "status \<noteq> ''HttpRedirected'' \<or> n = k"
  shows "\<exists>t' before after. onPipelineStatusChange t newStatus = Inr t'
           \<and> waitForCbs t' status = []
           \<and> resolved t' = resolved t @ before @ waitForCbs t status @ after
           \<and> (trackerOk t \<longrightarrow> (\<forall>p \<in> set (waitForCbs t status). count_list (resolved t') p = 1))"
proof -
  have n6: "n < 6" using n by (rule getStepByStatus_bound)
  have lt: "currentStep t < n" using cur kn by simp
  have mem: "status \<in> set (wokenStatuses (currentStep t) n)"
    using st cur kn red by (auto simp: mem_wokenStatuses [OF n6])
  then obtain W1 W2 where W: "wokenStatuses (currentStep t) n = W1 @ status # W2"
    by (auto simp: in_set_conv_decomp)
  have split: "concat (map (waitForCbs t) (wokenStatuses (currentStep t) n))
      = concat (map (waitForCbs t) W1) @ waitForCbs t status @ concat (map (waitForCbs t) W2)"
    unfolding W by simp
  let ?t' = "t\<lparr>resolved := resolved t @ concat (map (waitForCbs t) (wokenStatuses (currentStep t) n)),
            waitForCbs := (\<lambda>st. if st \<in> set (wokenStatuses (currentStep t) n) then []
                                 else waitForCbs t st)\<rparr>"
  have a: "onPipelineStatusChange t newStatus = Inr ?t'"
    by (rule onPipelineStatusChange_advance [OF n lt])
  have b: "waitForCbs ?t' status = []" using mem by simp
  have c: "resolved ?t' = resolved t @ concat (map (waitForCbs t) W1) @ waitForCbs t status
             @ concat (map (waitForCbs t) W2)"
    using split by simp
  have d: "trackerOk t \<longrightarrow> (\<forall>p \<in> set (waitForCbs t status). count_list (resolved ?t') p = 1)"
    using woken_count_one [OF _ n6 mem] by simp
  show ?thesis
    using a b c d by blast
qed

text \<open>
  Claim C3, as amended. For every pipeline status whose step \<open>k\<close> is not 0 (every one
  but \<open>NavigationRequested\<close>): recording lifecycle events never lowers \<open>currentStep\<close>;
  \<open>waitFor\<close> returns at once when \<open>k \<le> currentStep\<close>, and otherwise queues its
  waiter last; a status-change event of a lower step leaves the waiters queued and
  uncalled; and the first status-change event that reaches step \<open>k\<close> or beyond (for
  \<open>HttpRedirected\<close>: that reaches exactly its step) calls the queued waiters in queue
  order, each exactly once, and empties the list.
\<close>

theorem waitFor_pipeline_status:
  assumes st: "PipelineStatus status = Some k" and nz: "k \<noteq> 0"
  shows "currentStep t \<le> currentStep (recordStatuses t evs)
     \<and> (k \<le> currentStep t \<longrightarrow> waitFor t status sinceCommandId inclusive = (Returned, t))
     \<and> (currentStep t < k \<longrightarrow>
          waitFor t status sinceCommandId inclusive =
            (Pending (nextPromise t),
             t\<lparr>waitForCbs := (waitForCbs t)(status := waitForCbs t status @ [nextPromise t]),
               nextPromise := Suc (nextPromise t)\<rparr>))
     \<and> (\<forall>newStatus.
          getStepByStatus newStatus = None \<or> (\<exists>n. getStepByStatus newStatus = Some n \<and> n < k) \<longrightarrow>
          (\<exists>t'. onPipelineStatusChange t newStatus = Inr t'
             \<and> waitForCbs t' status = waitForCbs t status
             \<and> (trackerOk t \<longrightarrow> (\<forall>p \<in> set (waitForCbs t status). count_list (resolved t') p = 0))))
     \<and> (\<forall>newStatus n.
          currentStep t < k \<and> getStepByStatus newStatus = Some n \<and> k \<le> n
          \<and> (status \<noteq> ''HttpRedirected'' \<or> n = k) \<longrightarrow>
          (\<exists>t' before after. onPipelineStatusChange t newStatus = Inr t'
             \<and> waitForCbs t' status = []
             \<and> resolved t' = resolved t @ before @ waitForCbs t status @ after
             \<and> (trackerOk t \<longrightarrow> (\<forall>p \<in> set (waitForCbs t status). count_list (resolved t') p = 1))))"
proof (intro conjI allI impI)
  show "currentStep t \<le> currentStep (recordStatuses t evs)"
    by (rule currentStep_recordStatuses)
next
  assume "k \<le> currentStep t"
  then show "waitFor t status sinceCommandId inclusive = (Returned, t)"
    using nz by (simp add: waitFor_pipeline [OF st])
next
  assume "currentStep t < k"
  then show "waitFor t status sinceCommandId inclusive =
            (Pending (nextPromise t),
             t\<lparr>waitForCbs := (waitForCbs t)(status := waitForCbs t status @ [nextPromise t]),
               nextPromise := Suc (nextPromise t)\<rparr>)"
    by (simp add: waitFor_pipeline [OF st])
next
  fix newStatus
  assume "getStepByStatus newStatus = None \<or> (\<exists>n. getStepByStatus newStatus = Some n \<and> n < k)"
  then show "\<exists>t'. onPipelineStatusChange t newStatus = Inr t'
             \<and> waitForCbs t' status = waitForCbs t status
             \<and> (trackerOk t \<longrightarrow> (\<forall>p \<in> set (waitForCbs t status). count_list (resolved t') p = 0))"
    by (rule not_before [OF st])
next
  fix newStatus n
  assume "currentStep t < k \<and> getStepByStatus newStatus = Some n \<and> k \<le> n
          \<and> (status \<noteq> ''HttpRedirected'' \<or> n = k)"
  then show "\<exists>t' before after. onPipelineStatusChange t newStatus = Inr t'
             \<and> waitForCbs t' status = []
             \<and> resolved t' = resolved t @ before @ waitForCbs t status @ after
             \<and> (trackerOk t \<longrightarrow> (\<forall>p \<in> set (waitForCbs t status). count_list (resolved t') p = 1))"
    using when_reached [OF st] by blast
qed

lemma PipelineStatus_values:
  "PipelineStatus ''NavigationRequested'' = Some 0" "PipelineStatus ''HttpRequested'' = Some 1"
  "PipelineStatus ''HttpRedirected'' = Some 2" "PipelineStatus ''HttpResponded'' = Some 3"
  "PipelineStatus ''DomContentLoaded'' = Some 4" "PipelineStatus ''AllContentLoaded'' = Some 5"
  by (simp_all add: PipelineStatus_def PipelineStatus_entries_def)

lemma afterStatusChange_demoTracker:
  "afterStatusChange demoTracker ''HttpResponded'' =
     demoTracker\<lparr>resolved := [1, 2],
                  waitForCbs := (\<lambda>st. if st = ''HttpResponded'' then [] else waitForCbs demoTracker st)\<rparr>"
proof -
  have g: "getStepByStatus ''HttpResponded'' = Some 3"
    by (simp add: getStepByStatus_def PipelineStatus_values)
  have lt: "currentStep demoTracker < 3" by (simp add: currentStep_demoTracker)
  have r: "resolved demoTracker @ concat (map (waitForCbs demoTracker) [''HttpResponded'']) = [1, 2]"
    by (simp add: demoTracker_def)
  show ?thesis
    unfolding afterStatusChange_def onPipelineStatusChange_advance [OF g lt]
      currentStep_demoTracker wokenStatuses_1_3 r
    by simp
qed

text \<open>
  Claim C3 as stated fails twice. For \<open>NavigationRequested\<close>: its step 0 is not above
  the current step, yet \<open>waitFor\<close> queues a waiter instead of returning, since the source
  tests \<open>step && step <= this.currentStep\<close> and 0 is falsy. For \<open>HttpRedirected\<close>: a
  waiter queued at step 1 is still queued and uncalled after the change to
  \<open>HttpResponded\<close>, whose step 3 is past the redirect's step 2, since a redirect is
  woken only as the final step.
\<close>

theorem waitFor_resolution_counterexample:
  "PipelineStatus ''NavigationRequested'' = Some 0 \<and> 0 \<le> currentStep demoTracker
   \<and> fst (waitFor demoTracker ''NavigationRequested'' None True) = Pending 3
   \<and> waitForCbs (snd (waitFor demoTracker ''NavigationRequested'' None True)) ''NavigationRequested'' = [3]
   \<and> PipelineStatus ''HttpRedirected'' = Some 2 \<and> currentStep demoTracker = 1
   \<and> waitForCbs demoTracker ''HttpRedirected'' = [0]
   \<and> getStepByStatus ''HttpResponded'' = Some 3
   \<and> waitForCbs (afterStatusChange demoTracker ''HttpResponded'') ''HttpRedirected'' = [0]
   \<and> resolved (afterStatusChange demoTracker ''HttpResponded'') = [1, 2]"
proof -
  have a: "fst (waitFor demoTracker ''NavigationRequested'' None True) = Pending 3"
    "waitForCbs (snd (waitFor demoTracker ''NavigationRequested'' None True)) ''NavigationRequested'' = [3]"
    by (simp_all add: waitFor_pipeline [OF PipelineStatus_values(1)] demoTracker_def)
  have b: "waitForCbs demoTracker ''HttpRedirected'' = [0]"
    by (simp add: demoTracker_def)
  have c: "waitForCbs (afterStatusChange demoTracker ''HttpResponded'') ''HttpRedirected'' = [0]"
    "resolved (afterStatusChange demoTracker ''HttpResponded'') = [1, 2]"
    unfolding afterStatusChange_demoTracker by (simp_all add: b)
  show ?thesis
    using a b c by (simp add: PipelineStatus_values getStepByStatus_def currentStep_demoTracker)
qed

theorem waitFor_pipeline_status_witness:
  "PipelineStatus ''HttpRequested'' = Some 1 \<and> (1::nat) \<noteq> 0 \<and> 1 \<le> currentStep demoTracker
   \<and> waitFor demoTracker ''HttpRequested'' None True = (Returned, demoTracker)
   \<and> PipelineStatus ''HttpResponded'' = Some 3 \<and> (3::nat) \<noteq> 0 \<and> currentStep demoTracker < 3
   \<and> trackerOk demoTracker
   \<and> fst (waitFor demoTracker ''HttpResponded'' None True) = Pending 3
   \<and> getStepByStatus ''HttpRedirected'' = Some 2
   \<and> (\<exists>t'. onPipelineStatusChange demoTracker ''HttpRedirected'' = Inr t'
          \<and> waitForCbs t' ''HttpResponded'' = [1, 2] \<and> count_list (resolved t') 1 = 0)
   \<and> getStepByStatus ''HttpResponded'' = Some 3
   \<and> (\<exists>t' before after. onPipelineStatusChange demoTracker ''HttpResponded'' = Inr t'
          \<and> waitForCbs t' ''HttpResponded'' = [] \<and> resolved t' = before @ [1, 2] @ after
          \<and> count_list (resolved t') 1 = 1)"
proof -
  have one: "(1::nat) \<noteq> 0" and three: "(3::nat) \<noteq> 0" by simp_all
  have g2: "getStepByStatus ''HttpRedirected'' = Some 2" and g3: "getStepByStatus ''HttpResponded'' = Some 3"
    by (simp_all add: getStepByStatus_def PipelineStatus_values)
  note a = waitFor_pipeline_status [OF PipelineStatus_values(2) one, of demoTracker "[]" None True]
  note b = waitFor_pipeline_status [OF PipelineStatus_values(4) three, of demoTracker "[]" None True]
  have w: "waitForCbs demoTracker ''HttpResponded'' = [1, 2]" "resolved demoTracker = []"
    by (simp_all add: demoTracker_def)
  have i: "waitFor demoTracker ''HttpRequested'' None True = (Returned, demoTracker)"
    using a currentStep_demoTracker by simp
  have ii: "fst (waitFor demoTracker ''HttpResponded'' None True) = Pending 3"
    using b currentStep_demoTracker by (simp add: demoTracker_def)
  have iii: "\<exists>t'. onPipelineStatusChange demoTracker ''HttpRedirected'' = Inr t'
          \<and> waitForCbs t' ''HttpResponded'' = [1, 2] \<and> count_list (resolved t') 1 = 0"
  proof -
    from b have "\<forall>newStatus.
          getStepByStatus newStatus = None \<or> (\<exists>n. getStepByStatus newStatus = Some n \<and> n < 3) \<longrightarrow>
          (\<exists>t'. onPipelineStatusChange demoTracker newStatus = Inr t'
             \<and> waitForCbs t' ''HttpResponded'' = waitForCbs demoTracker ''HttpResponded''
             \<and> (trackerOk demoTracker \<longrightarrow> (\<forall>p \<in> set (waitForCbs demoTracker ''HttpResponded''). count_list (resolved t') p = 0)))"
      by blast
    then have "\<exists>t'. onPipelineStatusChange demoTracker ''HttpRedirected'' = Inr t'
             \<and> waitForCbs t' ''HttpResponded'' = waitForCbs demoTracker ''HttpResponded''
             \<and> (trackerOk demoTracker \<longrightarrow> (\<forall>p \<in> set (waitForCbs demoTracker ''HttpResponded''). count_list (resolved t') p = 0))"
      using g2 by simp
    then show ?thesis
      using trackerOk_demoTracker unfolding w by auto
  qed
  have iv: "\<exists>t' before after. onPipelineStatusChange demoTracker ''HttpResponded'' = Inr t'
          \<and> waitForCbs t' ''HttpResponded'' = [] \<and> resolved t' = before @ [1, 2] @ after
          \<and> count_list (resolved t') 1 = 1"
  proof -
    from b have "\<forall>newStatus n.
          currentStep demoTracker < 3 \<and> getStepByStatus newStatus = Some n \<and> 3 \<le> n
          \<and> (''HttpResponded'' \<noteq> ''HttpRedirected'' \<or> n = 3) \<longrightarrow>
          (\<exists>t' before after. onPipelineStatusChange demoTracker newStatus = Inr t'
             \<and> waitForCbs t' ''HttpResponded'' = []
             \<and> resolved t' = resolved demoTracker @ before @ waitForCbs demoTracker ''HttpResponded'' @ after
             \<and> (trackerOk demoTracker \<longrightarrow> (\<forall>p \<in> set (waitForCbs demoTracker ''HttpResponded''). count_list (resolved t') p = 1)))"
      by blast
    then have "\<exists>t' before after. onPipelineStatusChange demoTracker ''HttpResponded'' = Inr t'
             \<and> waitForCbs t' ''HttpResponded'' = []
             \<and> resolved t' = resolved demoTracker @ before @ waitForCbs demoTracker ''HttpResponded'' @ after
             \<and> (trackerOk demoTracker \<longrightarrow> (\<forall>p \<in> set (waitForCbs demoTracker ''HttpResponded''). count_list (resolved t') p = 1))"
      using g3 currentStep_demoTracker by simp
    then show ?thesis
      using trackerOk_demoTracker unfolding w by auto
  qed
  show ?thesis
    using PipelineStatus_values(2,4) currentStep_demoTracker trackerOk_demoTracker g2 g3 i ii iii iv
    by simp
qed


lemma trackerOk_push:
  assumes ok: "trackerOk t" and s: "s \<in> set statusKeys"
  shows "trackerOk (t\<lparr>waitForCbs := (waitForCbs t)(s := waitForCbs t s @ [nextPromise t]),
                      nextPromise := Suc (nextPromise t)\<rparr>)"
proof -
  have r: "distinct (resolved t)" "\<And>p. p \<in> set (resolved t) \<Longrightarrow> p < nextPromise t"
    using ok unfolding trackerOk_def by blast+
  have d: "\<And>st. st \<in> set statusKeys \<Longrightarrow> distinct (waitForCbs t st)"
    using ok unfolding trackerOk_def by blast
  have b: "\<And>st p. st \<in> set statusKeys \<Longrightarrow> p \<in> set (waitForCbs t st) \<Longrightarrow>
             p < nextPromise t \<and> p \<notin> set (resolved t)"
    using ok unfolding trackerOk_def by blast
  have x: "\<And>st st' p. st \<in> set statusKeys \<Longrightarrow> st' \<in> set statusKeys \<Longrightarrow> st \<noteq> st' \<Longrightarrow>
             p \<in> set (waitForCbs t st) \<Longrightarrow> p \<notin> set (waitForCbs t st')"
    using ok unfolding trackerOk_def by blast
  have fresh: "\<And>st. st \<in> set statusKeys \<Longrightarrow> nextPromise t \<notin> set (waitForCbs t st)"
    using b by fastforce
  have fresh': "nextPromise t \<notin> set (resolved t)"
    using r(2) by fastforce
  let ?t' = "t\<lparr>waitForCbs := (waitForCbs t)(s := waitForCbs t s @ [nextPromise t]),
               nextPromise := Suc (nextPromise t)\<rparr>"
  have r': "distinct (resolved ?t')" "\<forall>p \<in> set (resolved ?t'). p < nextPromise ?t'"
    using r by (auto simp: less_Suc_eq)
  have d': "\<forall>st \<in> set statusKeys. distinct (waitForCbs ?t' st)"
    using d fresh by auto
  have b': "\<forall>st \<in> set statusKeys. \<forall>p \<in> set (waitForCbs ?t' st).
              p < nextPromise ?t' \<and> p \<notin> set (resolved ?t')"
    using b fresh' by (auto simp: less_Suc_eq split: if_splits)
  have x': "\<forall>st \<in> set statusKeys. \<forall>st' \<in> set statusKeys.
              st = st' \<or> set (waitForCbs ?t' st) \<inter> set (waitForCbs ?t' st') = {}"
  proof (intro ballI)
    fix st st' assume st: "st \<in> set statusKeys" and st': "st' \<in> set statusKeys"
    show "st = st' \<or> set (waitForCbs ?t' st) \<inter> set (waitForCbs ?t' st') = {}"
      using x [OF st st'] x [OF st' st] fresh [OF st] fresh [OF st']
      by (auto simp: disjoint_iff)
  qed
  show ?thesis
    unfolding trackerOk_def using r' d' b' x' by blast
qed

lemma trackerOk_waitFor:
  assumes ok: "trackerOk t"
  shows "trackerOk (snd (waitFor t status sinceCommandId inclusive))"
proof -
  let ?s = "if status = READY then ''DomContentLoaded'' else status"
  let ?t' = "t\<lparr>waitForCbs := (waitForCbs t)(?s := waitForCbs t ?s @ [nextPromise t]),
              nextPromise := Suc (nextPromise t)\<rparr>"
  have cases: "snd (waitFor t status sinceCommandId inclusive) = t
      \<or> (?s \<in> set statusKeys \<and> snd (waitFor t status sinceCommandId inclusive) = ?t')"
  proof (cases "status = READY")
    case True
    have "LocationStatus ''DomContentLoaded'' = Some ''DomContentLoaded''"
      by (simp add: LocationStatus_def)
    then show ?thesis
      using True by (auto simp: waitFor_def Let_def statusKeys_eq)
  next
    case False
    show ?thesis
    proof (cases "LocationStatus status")
      case None
      then show ?thesis using False by (simp add: waitFor_def Let_def)
    next
      case (Some v)
      then have "status \<in> set statusKeys"
        using LocationStatus_Some_iff [of status] by simp
      then show ?thesis
        using False Some by (auto simp: waitFor_def Let_def)
    qed
  qed
  then show ?thesis
    using ok trackerOk_push [OF ok, of ?s] by auto
qed

lemma trackerOk_onNavigation: "trackerOk t \<Longrightarrow> trackerOk (onNavigation t lifecycle)"
  by (auto simp: onNavigation_def getTrigger_cases statusKeys_eq intro!: trackerOk_runWaitForCbs
      split: option.splits if_splits)

lemma trackerOk_updateSteps:
  "trackerOk t \<Longrightarrow> updateSteps k step newStep t = Inr t' \<Longrightarrow> trackerOk t'"
proof (induction k arbitrary: step t)
  case 0
  then show ?case by simp
next
  case (Suc k)
  from Suc.prems(2) obtain status where key: "keyAt pipelineKeys step = Some status"
    by (auto split: option.splits)
  then have "status \<in> set statusKeys"
    by (auto simp: keyAt_def statusKeys_def split: if_splits)
  then have ok1: "trackerOk (runWaitForCbs t status)"
    using Suc.prems(1) by (intro trackerOk_runWaitForCbs)
  show ?case
    using Suc.prems key Suc.IH [OF ok1] Suc.IH [OF Suc.prems(1)]
    by (auto split: if_splits)
qed

lemma trackerOk_onPipelineStatusChange:
  "trackerOk t \<Longrightarrow> onPipelineStatusChange t newStatus = Inr t' \<Longrightarrow> trackerOk t'"
  unfolding onPipelineStatusChange_def Let_def by (rule trackerOk_updateSteps)

lemma onPipelineStatusChange_total: "\<exists>t'. onPipelineStatusChange t newStatus = Inr t'"
proof (cases "\<exists>n. getStepByStatus newStatus = Some n \<and> currentStep t < n")
  case True
  then show ?thesis using onPipelineStatusChange_advance by blast
next
  case False
  then have "getStepByStatus newStatus = None \<or> (\<exists>n. getStepByStatus newStatus = Some n \<and> n \<le> currentStep t)"
    by (cases "getStepByStatus newStatus") (auto simp: not_less)
  then show ?thesis using onPipelineStatusChange_stay by blast
qed

lemma specAnchor_demoCommands: "specAnchor demoCommands = Some 3"
  by (simp add: specAnchor_def demoCommands_def demoCommand_def isAnchorAt_def isWaitFor_def
      startsWith_def upt_conv_Cons nth_Cons' del: upt_Suc)

theorem willRunCommand_anchor_witness:
  "defaultWaitForLocationCommandId
     (willRunCommand (newTracker []) (demoCommand 4 ''click'') demoCommands) = 3
   \<and> defaultWaitForLocationCommandId
       (willRunCommand (newTracker [])
          (demoCommand 5 ''waitForLocation'') (demoCommands @ [demoCommand 4 ''waitForElement''])) = 5"
proof -
  have a: "name_cmd (demoCommand 4 ''click'') \<noteq> ''waitForLocation''"
    by (simp add: demoCommand_def)
  have b: "name_cmd (demoCommand 5 ''waitForLocation'') = ''waitForLocation''"
    "id_cmd (demoCommand 5 ''waitForLocation'') = 5"
    "isWaitFor (last (demoCommands @ [demoCommand 4 ''waitForElement'']))"
    by (simp_all add: demoCommand_def isWaitFor_def startsWith_def)
  show ?thesis
    using willRunCommand_anchor [of "newTracker []" "demoCommand 4 ''click''" demoCommands]
      willRunCommand_anchor [of "newTracker []" "demoCommand 5 ''waitForLocation''"
        "demoCommands @ [demoCommand 4 ''waitForElement'']"]
      a b specAnchor_demoCommands
    by simp
qed


lemma insertCommand_rows:
  "filter (\<lambda>r. id_cmd r = id_cmd m) (insertCommand rows m) = [m]"
  by (induction rows) (auto simp: insertCommand_def)

lemma insertCommand_others:
  "i \<noteq> id_cmd m \<Longrightarrow>
   filter (\<lambda>r. id_cmd r = i) (insertCommand rows m) = filter (\<lambda>r. id_cmd r = i) rows"
  by (induction rows) (auto simp: insertCommand_def)

text \<open>
  Claim C4. \<open>runCommand\<close> inserts the start record (\<open>startDate\<close> set) before it
  calls the wrapped function, which runs in the state holding that record; afterwards,
  whether the function returned or threw, the table holds exactly one row for the
  command's id, with \<open>endDate\<close> set and \<open>result\<close> the value returned or the error
  thrown; and when the function throws, \<open>runCommand\<close> throws the same error.
\<close>

theorem runCommand_records:
  "\<exists>meta1 s1 s2.
     runCommand_start commandMeta s = (meta1, s1) \<and> snd (commandFn s1) = s2
     \<and> meta1 = commandMeta\<lparr>startDate := Some (clock s)\<rparr>
     \<and> filter (\<lambda>r. id_cmd r = id_cmd commandMeta) (db_commands s1) = [meta1]
     \<and> fst (runCommand commandFn commandMeta s) = fst (commandFn s1)
     \<and> filter (\<lambda>r. id_cmd r = id_cmd commandMeta)
          (db_commands (snd (runCommand commandFn commandMeta s)))
        = [meta1\<lparr>endDate := Some (clock s2),
                  result_cmd := Some (case fst (commandFn s1) of
                                        Inl err \<Rightarrow> Error err | Inr v \<Rightarrow> Value v)\<rparr>]
     \<and> (\<forall>err. fst (commandFn s1) = Inl err \<longrightarrow>
           fst (runCommand commandFn commandMeta s) = Inl err
           \<and> filter (\<lambda>r. id_cmd r = id_cmd commandMeta)
                (db_commands (snd (runCommand commandFn commandMeta s)))
              = [meta1\<lparr>endDate := Some (clock s2), result_cmd := Some (Error err)\<rparr>])"
proof -
  obtain meta1 s1 where st: "runCommand_start commandMeta s = (meta1, s1)"
    by (cases "runCommand_start commandMeta s")
  obtain out s2 where fn: "commandFn s1 = (out, s2)"
    by (cases "commandFn s1")
  have m1: "meta1 = commandMeta\<lparr>startDate := Some (clock s)\<rparr>"
    and s1: "db_commands s1 = insertCommand (db_commands s) meta1"
    using st by (auto simp: runCommand_start_def Let_def)
  have id1: "id_cmd meta1 = id_cmd commandMeta" using m1 by simp
  have rows1: "filter (\<lambda>r. id_cmd r = id_cmd commandMeta) (db_commands s1) = [meta1]"
    unfolding s1 using insertCommand_rows [of meta1 "db_commands s"] id1 by simp
  have endrows: "filter (\<lambda>r. id_cmd r = id_cmd commandMeta)
          (db_commands (runCommand_end idx meta1 res s2))
        = [meta1\<lparr>endDate := Some (clock s2), result_cmd := Some res\<rparr>]" for idx res
    using insertCommand_rows [of "meta1\<lparr>endDate := Some (clock s2), result_cmd := Some res\<rparr>" "db_commands s2"] id1
    by (simp add: runCommand_end_def Let_def)
  show ?thesis
  proof (cases out)
    case (Inl err)
    show ?thesis
      using st fn Inl m1 rows1 endrows [of "length (commands s)" "Error err"]
      by (simp add: runCommand_def)
  next
    case (Inr v)
    show ?thesis
      using st fn Inr m1 rows1 endrows [of "length (commands s)" "Value v"]
      by (simp add: runCommand_def)
  qed
qed

theorem runCommand_records_witness:
  "fst (runCommand failingCommand (demoCommand 1 ''goto'') newSession) = Inl ''boom''
   \<and> db_commands (snd (runCommand failingCommand (demoCommand 1 ''goto'') newSession))
       = [(demoCommand 1 ''goto'')\<lparr>startDate := Some 0, endDate := Some 7,
                                   result_cmd := Some (Error ''boom'')\<rparr>]"
proof -
  have e: "db_commands (snd (runCommand failingCommand (demoCommand 1 ''goto'') newSession))
       = filter (\<lambda>r. id_cmd r = id_cmd (demoCommand 1 ''goto''))
           (db_commands (snd (runCommand failingCommand (demoCommand 1 ''goto'') newSession)))"
    by (simp add: runCommand_def runCommand_start_def runCommand_end_def failingCommand_def
        newSession_def insertCommand_def demoCommand_def Let_def)
  show ?thesis
    using runCommand_records [of "demoCommand 1 ''goto''" newSession failingCommand]
    unfolding e [symmetric]
    by (auto simp: runCommand_start_def failingCommand_def newSession_def Let_def)
qed

lemma replayMessages_eq:
  "replayMessages ms rid l log = log @ map (Pair l) (filter (\<lambda>m. resourceId m = rid) ms)"
  by (induction ms arbitrary: log) auto

lemma callListeners_eq: "callListeners ls m log = log @ map (\<lambda>l. (l, m)) ls"
  by (induction ls arbitrary: log) auto

lemma capture_listeners:
  "websocketListeners (snd (captureWebsocketMessage s event)) = websocketListeners s"
  by (auto simp: captureWebsocketMessage_def loggerError_def onLogEvent_def Let_def
      split: option.splits)

lemma capture_step:
  "\<exists>new. websocketMessages (snd (captureWebsocketMessage s event)) = websocketMessages s @ new
     \<and> delivered (snd (captureWebsocketMessage s event))
         = delivered s @ concat (map (\<lambda>m. map (\<lambda>l. (l, m)) (listenersFor s (resourceId m))) new)"
proof (cases "\<exists>resources. browserRequestIdToResources s (browserRequestId event) = Some resources \<and> resources \<noteq> []")
  case False
  then have "websocketMessages (snd (captureWebsocketMessage s event)) = websocketMessages s @ []
     \<and> delivered (snd (captureWebsocketMessage s event))
         = delivered s @ concat (map (\<lambda>m. map (\<lambda>l. (l, m)) (listenersFor s (resourceId m))) [])"
    by (auto simp: captureWebsocketMessage_def loggerError_def onLogEvent_def Let_def
        split: option.splits)
  then show ?thesis by blast
next
  case True
  then obtain resources where r: "browserRequestIdToResources s (browserRequestId event) = Some resources"
      "resources \<noteq> []" by blast
  let ?m = "\<lparr>resourceId = fst (last resources), message = message_ev event,
                   messageId = websocketMessageIdCounter s + 1,
                   source = (if isFromServer event then ''server'' else ''client'')\<rparr>"
  have "websocketMessages (snd (captureWebsocketMessage s event)) = websocketMessages s @ [?m]
     \<and> delivered (snd (captureWebsocketMessage s event))
         = delivered s @ concat (map (\<lambda>m. map (\<lambda>l. (l, m)) (listenersFor s (resourceId m))) [?m])"
    using r by (simp add: captureWebsocketMessage_def Let_def callListeners_eq listenersFor_def)
  then show ?thesis by blast
qed

lemma captureAll_listeners: "websocketListeners (captureAll s evs) = websocketListeners s"
  by (induction evs arbitrary: s) (auto simp: capture_listeners)

lemma captureAll_eq:
  "\<exists>new. websocketMessages (captureAll s evs) = websocketMessages s @ new
     \<and> delivered (captureAll s evs)
         = delivered s @ concat (map (\<lambda>m. map (\<lambda>l. (l, m)) (listenersFor s (resourceId m))) new)"
proof (induction evs arbitrary: s)
  case Nil
  have "websocketMessages s = websocketMessages s @ []
     \<and> delivered s = delivered s @ concat (map (\<lambda>m. map (\<lambda>l. (l, m)) (listenersFor s (resourceId m))) [])"
    by simp
  then show ?case unfolding captureAll.simps by blast
next
  case (Cons ev evs)
  let ?s1 = "snd (captureWebsocketMessage s ev)"
  obtain n1 where n1: "websocketMessages ?s1 = websocketMessages s @ n1"
     "delivered ?s1 = delivered s @ concat (map (\<lambda>m. map (\<lambda>l. (l, m)) (listenersFor s (resourceId m))) n1)"
    using capture_step [of s ev] by blast
  obtain n2 where n2: "websocketMessages (captureAll ?s1 evs) = websocketMessages ?s1 @ n2"
     "delivered (captureAll ?s1 evs) = delivered ?s1 @ concat (map (\<lambda>m. map (\<lambda>l. (l, m)) (listenersFor ?s1 (resourceId m))) n2)"
    using Cons.IH [of ?s1] by blast
  have same: "listenersFor ?s1 = listenersFor s"
    by (simp add: listenersFor_def capture_listeners fun_eq_iff)
  have "websocketMessages (captureAll s (ev # evs)) = websocketMessages s @ (n1 @ n2)
     \<and> delivered (captureAll s (ev # evs))
         = delivered s @ concat (map (\<lambda>m. map (\<lambda>l. (l, m)) (listenersFor s (resourceId m))) (n1 @ n2))"
    using n1 n2 same by simp
  then show ?case by blast
qed

text \<open>
  Claim C6. Registering a listener for a resource id calls it, before returning, with
  every message already captured for that resource, in capture order; the listener is
  then registered, and whatever is captured afterwards is delivered after the replay.
\<close>

theorem websocket_replay:
  "\<exists>new.
     delivered (onWebsocketMessages s rid l)
       = delivered s @ map (Pair l) (filter (\<lambda>m. resourceId m = rid) (websocketMessages s))
     \<and> l \<in> set (listenersFor (onWebsocketMessages s rid l) rid)
     \<and> websocketMessages (captureAll (onWebsocketMessages s rid l) evs) = websocketMessages s @ new
     \<and> delivered (captureAll (onWebsocketMessages s rid l) evs)
         = delivered s @ map (Pair l) (filter (\<lambda>m. resourceId m = rid) (websocketMessages s))
           @ concat (map (\<lambda>m. map (\<lambda>l'. (l', m))
                                  (listenersFor (onWebsocketMessages s rid l) (resourceId m))) new)"
proof -
  let ?s1 = "onWebsocketMessages s rid l"
  have a: "delivered ?s1 = delivered s @ map (Pair l) (filter (\<lambda>m. resourceId m = rid) (websocketMessages s))"
    by (simp add: onWebsocketMessages_def Let_def replayMessages_eq)
  have b: "l \<in> set (listenersFor ?s1 rid)"
    by (simp add: onWebsocketMessages_def Let_def listenersFor_def)
  have c: "websocketMessages ?s1 = websocketMessages s"
    by (simp add: onWebsocketMessages_def Let_def)
  obtain new where n: "websocketMessages (captureAll ?s1 evs) = websocketMessages ?s1 @ new"
     "delivered (captureAll ?s1 evs) = delivered ?s1 @ concat (map (\<lambda>m. map (\<lambda>l. (l, m)) (listenersFor ?s1 (resourceId m))) new)"
    using captureAll_eq [of ?s1 evs] by blast
  show ?thesis
    using a b n unfolding c by (intro exI [of _ new]) simp
qed

lemma socketSession_eval:
  "websocketMessages socketSession = [socketMessage 7 ''a'' 1, socketMessage 8 ''b'' 2, socketMessage 7 ''c'' 3]"
  "delivered socketSession = []"
  "websocketListeners socketSession = (\<lambda>_. None)"
  by (simp_all add: socketSession_def socketEvent_def socketMessage_def newSession_def
      captureWebsocketMessage_def Let_def lastCommand_def)

lemma socketSession_next:
  "websocketMessages (captureAll (onWebsocketMessages socketSession 7 1) [socketEvent ''r1'' ''d''])
     = websocketMessages socketSession @ [socketMessage 7 ''d'' 4]"
  by (simp add: socketSession_def socketEvent_def socketMessage_def newSession_def
      captureWebsocketMessage_def Let_def lastCommand_def onWebsocketMessages_def)

theorem websocket_replay_witness:
  "delivered (onWebsocketMessages socketSession 7 1)
     = [(1, socketMessage 7 ''a'' 1), (1, socketMessage 7 ''c'' 3)]
   \<and> delivered (captureAll (onWebsocketMessages socketSession 7 1) [socketEvent ''r1'' ''d''])
     = [(1, socketMessage 7 ''a'' 1), (1, socketMessage 7 ''c'' 3), (1, socketMessage 7 ''d'' 4)]"
proof -
  obtain new where n:
    "delivered (onWebsocketMessages socketSession 7 1)
       = delivered socketSession @ map (Pair 1) (filter (\<lambda>m. resourceId m = 7) (websocketMessages socketSession))"
    "websocketMessages (captureAll (onWebsocketMessages socketSession 7 1) [socketEvent ''r1'' ''d''])
       = websocketMessages socketSession @ new"
    "delivered (captureAll (onWebsocketMessages socketSession 7 1) [socketEvent ''r1'' ''d''])
         = delivered socketSession @ map (Pair 1) (filter (\<lambda>m. resourceId m = 7) (websocketMessages socketSession))
           @ concat (map (\<lambda>m. map (\<lambda>l'. (l', m))
                                  (listenersFor (onWebsocketMessages socketSession 7 1) (resourceId m))) new)"
    using websocket_replay [of socketSession 7 1 "[socketEvent ''r1'' ''d'']"] by blast
  have new: "new = [socketMessage 7 ''d'' 4]"
    using n(2) unfolding socketSession_next by simp
  have l: "listenersFor (onWebsocketMessages socketSession 7 1) 7 = [1]"
    by (simp add: listenersFor_def onWebsocketMessages_def Let_def socketSession_eval)
  show ?thesis
    unfolding n(1) n(3) new socketSession_eval using l by (simp add: socketMessage_def)
qed

lemma commandsLoop_le:
  assumes "lastSuccess \<le> T"
    and "acl \<longrightarrow> (\<forall>c \<in> set cs. case endDate c of None \<Rightarrow> True | Some e \<Rightarrow> isErrorResult c \<or> e \<le> T)"
  shows "commandsLoop cs acl lastSuccess \<le> T"
  using assms
proof (induction cs arbitrary: lastSuccess)
  case Nil
  then show ?case by simp
next
  case (Cons c cs)
  show ?case
  proof (cases "endDate c")
    case None
    then show ?thesis using Cons by simp
  next
    case (Some e)
    show ?thesis
    proof (cases "acl \<and> e > lastSuccess \<and> \<not> isErrorResult c")
      case True
      then have "e \<le> T" using Cons.prems(2) Some by auto
      then show ?thesis using Cons.IH [of e] Cons.prems(2) Some True by simp
    next
      case False
      then show ?thesis using Cons.IH [of lastSuccess] Cons.prems Some by auto
    qed
  qed
qed

lemma navigationsLoop_le:
  assumes "lastSuccess \<le> T"
    and "\<forall>h \<in> set navs. case lastPageTimeOf h of None \<Rightarrow> True | Some t \<Rightarrow> t \<le> T"
    and "(\<exists>h \<in> set navs. allContentLoadedOf h \<noteq> None) \<longrightarrow>
           (\<forall>c \<in> set cs. case endDate c of None \<Rightarrow> True | Some e \<Rightarrow> isErrorResult c \<or> e \<le> T)"
  shows "navigationsLoop navs cs lastSuccess \<le> T"
  using assms
proof (induction navs arbitrary: lastSuccess)
  case Nil
  then show ?case by simp
next
  case (Cons h navs)
  let ?l1 = "case lastPageTimeOf h of None \<Rightarrow> lastSuccess
             | Some t \<Rightarrow> if t > lastSuccess then t else lastSuccess"
  have l1: "?l1 \<le> T"
    using Cons.prems(1,2) by (auto split: option.splits)
  have l2: "commandsLoop cs (allContentLoadedOf h \<noteq> None) ?l1 \<le> T"
    using Cons.prems(3) by (intro commandsLoop_le [OF l1]) auto
  have "navigationsLoop navs cs (commandsLoop cs (allContentLoadedOf h \<noteq> None) ?l1) \<le> T"
    using Cons.prems(2,3) by (intro Cons.IH [OF l2]) auto
  then show ?case by (simp add: Let_def)
qed

lemma foldl_max_Max: "foldl max a xs = Max (set (a # xs))"
proof (induction xs arbitrary: a)
  case Nil
  then show ?case by simp
next
  case (Cons x xs)
  have "Max (set (max a x # xs)) = Max (set (a # x # xs))"
    by (cases "xs = []") (simp_all add: max.assoc)
  then show ?case using Cons [of "max a x"] by simp
qed

lemma commandsLoop_eq:
  "commandsLoop cs acl lastSuccess = foldl max lastSuccess (if acl then completedEnds cs else [])"
proof (induction cs arbitrary: lastSuccess)
  case Nil
  then show ?case by (simp add: completedEnds_def)
next
  case (Cons c cs)
  have e: "completedEnds (c # cs) =
      (case endDate c of None \<Rightarrow> [] | Some e \<Rightarrow> if isErrorResult c then [] else [e])
      @ completedEnds cs"
    by (simp add: completedEnds_def)
  show ?case
    unfolding e using Cons [of lastSuccess] Cons
    by (auto simp: max_def split: option.splits)
qed

lemma navigationsLoop_eq:
  "navigationsLoop navs cs lastSuccess =
     foldl max lastSuccess
       (concat (map (\<lambda>h. (case lastPageTimeOf h of None \<Rightarrow> [] | Some t \<Rightarrow> [t])
                           @ (if allContentLoadedOf h \<noteq> None then completedEnds cs else []))
                    navs))"
proof (induction navs arbitrary: lastSuccess)
  case Nil
  then show ?case by simp
next
  case (Cons h navs)
  have p: "(case lastPageTimeOf h of None \<Rightarrow> lastSuccess
            | Some t \<Rightarrow> if t > lastSuccess then t else lastSuccess)
         = foldl max lastSuccess (case lastPageTimeOf h of None \<Rightarrow> [] | Some t \<Rightarrow> [t])"
    by (auto simp: max_def split: option.splits)
  show ?case
    by (simp add: Let_def Cons.IH commandsLoop_eq p del: foldl_Cons)
qed

lemma lastSuccessDateOf_latest: "lastSuccessDateOf s = Max (set (successTimes s))"
proof -
  let ?hs = "map snd (navigationsByTabId s)"
  let ?xs = "concat (map (\<lambda>h. (case lastPageTimeOf h of None \<Rightarrow> [] | Some t \<Rightarrow> [t])
                           @ (if allContentLoadedOf h \<noteq> None then completedEnds (commands s) else []))
                    ?hs)"
  have "set ?xs = set (pageTimes ?hs)
      \<union> (if list_ex (\<lambda>tab. allContentLoadedOf (snd tab) \<noteq> None) (navigationsByTabId s)
         then set (completedEnds (commands s)) else {})"
    by (auto simp: pageTimes_def list_ex_iff split: option.splits if_splits)
  then have "set (createDate s # ?xs) = set (successTimes s)"
    by (simp add: successTimes_def)
  then show ?thesis
    unfolding lastSuccessDateOf_def navigationsLoop_eq foldl_max_Max by simp
qed

text \<open>
  Claim C7, as amended. The last error time is the timestamp of the last error-level log
  entry of the session. The last-success time that \<open>checkForResponsive\<close> computes is the
  latest of the session's creation date, each tab's last page time (the
  \<open>AllContentLoaded\<close> date of its current navigation or, when it has not loaded, the
  date it was initiated) and, when some tab's content is loaded, the end dates of the
  completed commands without an error. \<open>hasRecentErrors\<close> is true iff there is a last
  error time and it is at or after that time. With the last error at \<open>T2\<close>, the
  session created by then, no successful activity after \<open>T2\<close> (no current navigation
  with \<open>AllContentLoaded\<close> after \<open>T2\<close>, no completed command without an error ending
  after \<open>T2\<close> while a tab's content is loaded) and no tab whose current navigation, not
  yet loaded, was initiated after \<open>T2\<close>, \<open>hasRecentErrors\<close> is true.
\<close>

theorem checkForResponsive_errors:
  "((sessionId_log entry = Some (sessionId s) \<or> sessionId_log entry = None)
      \<and> level entry = ''error'' \<longrightarrow>
      lastErrorTime (onLogEvent s entry) = Some (timestamp entry))
   \<and> lastSuccessDateOf s = Max (set (successTimes s))
   \<and> (hasRecentErrors (checkForResponsive s)
      \<longleftrightarrow> (\<exists>e. lastErrorTime s = Some e \<and> Max (set (successTimes s)) \<le> e))
   \<and> (lastErrorTime s = Some T2 \<and> createDate s \<le> T2 \<and> \<not> laterSuccess s T2
       \<and> (\<forall>tab \<in> set (navigationsByTabId s).
             allContentLoadedOf (snd tab) = None \<longrightarrow>
             (case top (snd tab) of None \<Rightarrow> True | Some nav \<Rightarrow> initiatedTime nav \<le> T2))
       \<longrightarrow> hasRecentErrors (checkForResponsive s))"
proof (intro conjI impI)
  show "lastErrorTime (onLogEvent s entry) = Some (timestamp entry)"
    if "(sessionId_log entry = Some (sessionId s) \<or> sessionId_log entry = None)
      \<and> level entry = ''error''"
    using that by (auto simp: onLogEvent_def)
  show "lastSuccessDateOf s = Max (set (successTimes s))"
    by (rule lastSuccessDateOf_latest)
  have iff: "hasRecentErrors (checkForResponsive s)
      \<longleftrightarrow> (\<exists>e. lastErrorTime s = Some e \<and> lastSuccessDateOf s \<le> e)"
    by (simp add: checkForResponsive_def Let_def split: option.splits)
  then show "hasRecentErrors (checkForResponsive s)
      \<longleftrightarrow> (\<exists>e. lastErrorTime s = Some e \<and> Max (set (successTimes s)) \<le> e)"
    by (simp add: lastSuccessDateOf_latest)
  assume a: "lastErrorTime s = Some T2 \<and> createDate s \<le> T2 \<and> \<not> laterSuccess s T2
       \<and> (\<forall>tab \<in> set (navigationsByTabId s).
             allContentLoadedOf (snd tab) = None \<longrightarrow>
             (case top (snd tab) of None \<Rightarrow> True | Some nav \<Rightarrow> initiatedTime nav \<le> T2))"
  have noAcl: "\<forall>tab \<in> set (navigationsByTabId s).
       case allContentLoadedOf (snd tab) of None \<Rightarrow> True | Some t \<Rightarrow> t \<le> T2"
    using a unfolding laterSuccess_def by (auto split: option.splits simp: not_less)
  have pages: "\<forall>h \<in> set (map snd (navigationsByTabId s)).
       case lastPageTimeOf h of None \<Rightarrow> True | Some t \<Rightarrow> t \<le> T2"
  proof
    fix h assume "h \<in> set (map snd (navigationsByTabId s))"
    then obtain tab where tab: "tab \<in> set (navigationsByTabId s)" "h = snd tab" by auto
    show "case lastPageTimeOf h of None \<Rightarrow> True | Some t \<Rightarrow> t \<le> T2"
      using a noAcl tab by (force simp: lastPageTimeOf_def split: option.splits)
  qed
  have cmds: "(\<exists>h \<in> set (map snd (navigationsByTabId s)). allContentLoadedOf h \<noteq> None) \<longrightarrow>
       (\<forall>c \<in> set (commands s). case endDate c of None \<Rightarrow> True | Some e \<Rightarrow> isErrorResult c \<or> e \<le> T2)"
  proof (intro impI ballI)
    fix c assume h: "\<exists>h \<in> set (map snd (navigationsByTabId s)). allContentLoadedOf h \<noteq> None"
      and c: "c \<in> set (commands s)"
    have "\<exists>tab \<in> set (navigationsByTabId s). allContentLoadedOf (snd tab) \<noteq> None"
      using h by auto
    then have "\<not> (\<exists>command \<in> set (commands s).
                case endDate command of None \<Rightarrow> False | Some e \<Rightarrow> e > T2 \<and> \<not> isErrorResult command)"
      using a unfolding laterSuccess_def by blast
    then show "case endDate c of None \<Rightarrow> True | Some e \<Rightarrow> isErrorResult c \<or> e \<le> T2"
      using c by (force split: option.splits)
  qed
  have "lastSuccessDateOf s \<le> T2"
    unfolding lastSuccessDateOf_def using a pages cmds by (intro navigationsLoop_le) auto
  then show "hasRecentErrors (checkForResponsive s)"
    using a iff by simp
qed

lemma loaded_eval:
  "allContentLoadedOf [loadedNavigation] = Some 10" "allContentLoadedOf [pendingNavigation] = None"
  "top [pendingNavigation] = Some pendingNavigation" "top [loadedNavigation] = Some loadedNavigation"
  by (simp_all add: allContentLoadedOf_def top_def loadedNavigation_def pendingNavigation_def)

text \<open>
  Claim C7 as stated fails: a tab loaded at 10, an error at 20 and no successful activity
  since, but a second tab whose navigation was initiated at 30 and has not loaded. The
  source takes \<open>allContentLoaded ?? navigation.top?.initiatedTime\<close> as the tab's last page
  time, so the last-success time is 30 and \<open>hasRecentErrors\<close> is false.
\<close>

theorem checkForResponsive_counterexample:
  "allContentLoadedOf [loadedNavigation] = Some 10 \<and> lastErrorTime erroredSession = Some 20
   \<and> (10::int) < 20 \<and> \<not> laterSuccess erroredSession 20
   \<and> \<not> hasRecentErrors (checkForResponsive erroredSession)"
proof -
  have i: "initiatedTime pendingNavigation = 30" by (simp add: pendingNavigation_def)
  show ?thesis
    by (simp add: loaded_eval i erroredSession_def onLogEvent_def errorAt20_def newSession_def
        laterSuccess_def
        checkForResponsive_def lastSuccessDateOf_def lastPageTimeOf_def lastCommand_def Let_def)
qed

theorem checkForResponsive_errors_witness:
  "lastErrorTime stuckSession = Some 20 \<and> createDate stuckSession \<le> 20
   \<and> \<not> laterSuccess stuckSession 20 \<and> hasRecentErrors (checkForResponsive stuckSession)
   \<and> successTimes stuckSession = [0, 10, 12] \<and> lastSuccessDateOf stuckSession = 12"
proof -
  have e: "sessionId_log errorAt20 = Some (sessionId (newSession\<lparr>navigationsByTabId := [(''tab1'', [loadedNavigation])],
                   commands := [(demoCommand 1 ''goto'')\<lparr>startDate := Some 2,
                                                          endDate := Some 12\<rparr>]\<rparr>))"
    "level errorAt20 = ''error''" "timestamp errorAt20 = 20"
    by (simp_all add: errorAt20_def newSession_def)
  have a: "lastErrorTime stuckSession = Some 20"
    unfolding stuckSession_def
    using checkForResponsive_errors [of errorAt20 "newSession\<lparr>navigationsByTabId := [(''tab1'', [loadedNavigation])],
                   commands := [(demoCommand 1 ''goto'')\<lparr>startDate := Some 2,
                                                          endDate := Some 12\<rparr>]\<rparr>"] e
    by simp
  have a': "createDate stuckSession \<le> 20"
    by (simp add: stuckSession_def onLogEvent_def errorAt20_def newSession_def)
  have b: "\<not> laterSuccess stuckSession 20"
    by (simp add: stuckSession_def onLogEvent_def errorAt20_def newSession_def laterSuccess_def
        loaded_eval demoCommand_def)
  have c: "\<forall>tab \<in> set (navigationsByTabId stuckSession).
             allContentLoadedOf (snd tab) = None \<longrightarrow>
             (case top (snd tab) of None \<Rightarrow> True | Some nav \<Rightarrow> initiatedTime nav \<le> 20)"
    by (simp add: stuckSession_def onLogEvent_def errorAt20_def newSession_def loaded_eval)
  have d: "successTimes stuckSession = [0, 10, 12]"
    by (simp add: stuckSession_def onLogEvent_def errorAt20_def newSession_def
        successTimes_def pageTimes_def completedEnds_def loaded_eval
        lastPageTimeOf_def demoCommand_def isErrorResult_def Let_def)
  have d': "lastSuccessDateOf stuckSession = 12"
    using checkForResponsive_errors [of errorAt20 stuckSession 20] unfolding d by simp
  show ?thesis
    using checkForResponsive_errors [of errorAt20 stuckSession 20] a a' b c d d' by blast
qed

lemma map_of_mapSet: "map_of (mapSet obj k v) = (map_of obj)(k \<mapsto> v)"
  by (induction obj) (auto simp: fun_eq_iff)

lemma map_of_spread:
  "map_of obj k \<noteq> None \<Longrightarrow>
   map_of (foldl (\<lambda>obj kv. mapSet obj (fst kv) (snd kv)) obj extras) k \<noteq> None"
  by (induction extras arbitrary: obj) (auto simp: map_of_mapSet)

lemma isErrorPayload_errorData: "isErrorPayload (errorData e)"
proof (cases e)
  case (ErrorInstance msg stack extras)
  have a: "map_of [(''message'', msg), (''stack'', stack)] ''message'' \<noteq> None"
    and b: "map_of [(''message'', msg), (''stack'', stack)] ''stack'' \<noteq> None"
    by simp_all
  show ?thesis
    unfolding ErrorInstance errorData_def
    using map_of_spread [OF a, of extras] map_of_spread [OF b, of extras] by simp
next
  case (NotAnError str)
  then show ?thesis by (simp add: errorData_def)
qed

lemma handleRequest_paths:
  "(\<exists>conn1 resp. handleRequest env conn payload = conn1\<lparr>emitted := emitted conn1 @ [Message resp]\<rparr>
       \<and> snd (tryCommand env conn payload) = conn1
       \<and> responseId resp = messageId_req payload
       \<and> (isError resp \<longleftrightarrow> (\<forall>d. fst (tryCommand env conn payload) \<noteq> Succeeded d))
       \<and> (isError resp \<longrightarrow> isErrorPayload (data_res resp)))
   \<and> (\<forall>f e conn1.
         members env (command_req payload) = Some (Method f)
         \<and> f conn (meta_req payload) (args_req payload) = (Throws e, conn1) \<longrightarrow>
         handleRequest env conn payload
           = conn1\<lparr>emitted := emitted conn1 @ [Message (errorResponse env payload (errorData e))]\<rparr>)
   \<and> (\<forall>tab f e conn1.
         members env (command_req payload) = None
         \<and> getTab env (meta_req payload) = TabFound tab
         \<and> tab (command_req payload) = Some (TabFunction f)
         \<and> f conn (args_req payload) = (Throws e, conn1) \<longrightarrow>
         handleRequest env conn payload
           = conn1\<lparr>emitted := emitted conn1 @ [Message (errorResponse env payload (errorData e))]\<rparr>)
   \<and> (\<forall>tab.
         members env (command_req payload) = None
         \<and> getTab env (meta_req payload) = TabFound tab
         \<and> (\<forall>f. tab (command_req payload) \<noteq> Some (TabFunction f)) \<longrightarrow>
         (\<exists>ty. handleRequest env conn payload
           = conn\<lparr>emitted := emitted conn @
               [Message (errorResponse env payload
                  (NewError (''Command not available on tab ('' @ command_req payload
                              @ '' - '' @ ty @ '')'')))]\<rparr>))"
proof (intro conjI allI impI)
  obtain attempt conn1 where t: "tryCommand env conn payload = (attempt, conn1)"
    by (cases "tryCommand env conn payload")
  show "\<exists>conn1 resp. handleRequest env conn payload = conn1\<lparr>emitted := emitted conn1 @ [Message resp]\<rparr>
       \<and> snd (tryCommand env conn payload) = conn1
       \<and> responseId resp = messageId_req payload
       \<and> (isError resp \<longleftrightarrow> (\<forall>d. fst (tryCommand env conn payload) \<noteq> Succeeded d))
       \<and> (isError resp \<longrightarrow> isErrorPayload (data_res resp))"
  proof -
    let ?de = "case attempt of
                   Succeeded d \<Rightarrow> (Data d, False)
                 | NotOnTab ty \<Rightarrow>
                     (NewError (''Command not available on tab ('' @ command_req payload
                                 @ '' - '' @ ty @ '')''), True)
                 | Threw e \<Rightarrow> (errorData e, True)"
    let ?resp = "\<lparr>responseId = messageId_req payload,
                 commandId = commandIdOf env (meta_req payload),
                 data_res = fst ?de, isError = snd ?de\<rparr>"
    have h: "handleRequest env conn payload = conn1\<lparr>emitted := emitted conn1 @ [Message ?resp]\<rparr>"
      by (simp add: handleRequest_def t Let_def)
    have e: "isError ?resp \<longleftrightarrow> (\<forall>d. fst (tryCommand env conn payload) \<noteq> Succeeded d)"
      unfolding t by (cases attempt) simp_all
    have q: "isError ?resp \<longrightarrow> isErrorPayload (data_res ?resp)"
      by (cases attempt) (simp_all add: isErrorPayload_errorData)
    have c: "snd (tryCommand env conn payload) = conn1" and r: "responseId ?resp = messageId_req payload"
      by (simp_all add: t)
    show ?thesis
      using h c r e q by blast
  qed
next
  fix f e conn1
  assume "members env (command_req payload) = Some (Method f)
         \<and> f conn (meta_req payload) (args_req payload) = (Throws e, conn1)"
  then have "tryCommand env conn payload = (Threw e, conn1)"
    by (simp add: tryCommand_def)
  then show "handleRequest env conn payload
           = conn1\<lparr>emitted := emitted conn1 @ [Message (errorResponse env payload (errorData e))]\<rparr>"
    by (simp add: handleRequest_def errorResponse_def Let_def)
next
  fix tab f e conn1
  assume "members env (command_req payload) = None
         \<and> getTab env (meta_req payload) = TabFound tab
         \<and> tab (command_req payload) = Some (TabFunction f)
         \<and> f conn (args_req payload) = (Throws e, conn1)"
  then have "tryCommand env conn payload = (Threw e, conn1)"
    by (simp add: tryCommand_def)
  then show "handleRequest env conn payload
           = conn1\<lparr>emitted := emitted conn1 @ [Message (errorResponse env payload (errorData e))]\<rparr>"
    by (simp add: handleRequest_def errorResponse_def Let_def)
next
  fix tab
  assume a: "members env (command_req payload) = None
         \<and> getTab env (meta_req payload) = TabFound tab
         \<and> (\<forall>f. tab (command_req payload) \<noteq> Some (TabFunction f))"
  then have "\<exists>ty. tryCommand env conn payload = (NotOnTab ty, conn)"
  proof (cases "tab (command_req payload)")
    case None
    then show ?thesis using a by (simp add: tryCommand_def)
  next
    case (Some m)
    then show ?thesis using a by (cases m) (simp_all add: tryCommand_def)
  qed
  then obtain ty where "tryCommand env conn payload = (NotOnTab ty, conn)" by blast
  then have "handleRequest env conn payload
           = conn\<lparr>emitted := emitted conn @
               [Message (errorResponse env payload
                  (NewError (''Command not available on tab ('' @ command_req payload
                              @ '' - '' @ ty @ '')'')))]\<rparr>"
    by (simp add: handleRequest_def errorResponse_def Let_def)
  then show "\<exists>ty. handleRequest env conn payload
           = conn\<lparr>emitted := emitted conn @
               [Message (errorResponse env payload
                  (NewError (''Command not available on tab ('' @ command_req payload
                              @ '' - '' @ ty @ '')'')))]\<rparr>"
    by blast
qed

lemma map_of_spread_eq:
  "map_of (foldl (\<lambda>obj kv. mapSet obj (fst kv) (snd kv)) obj extras)
     = map_of obj ++ map_of (rev extras)"
proof (induction extras arbitrary: obj)
  case Nil
  then show ?case by simp
next
  case (Cons kv extras)
  obtain k v where kv: "kv = (k, v)" by (cases kv)
  have "map_of (mapSet obj k v) ++ map_of (rev extras)
      = map_of obj ++ (map_of (rev extras @ [(k, v)]))"
    by (simp add: map_of_mapSet fun_eq_iff map_add_def split: option.splits)
  then show ?case
    unfolding kv using Cons [of "mapSet obj k v"] by simp
qed

lemma errorData_ErrorInstance:
  "\<exists>obj. errorData (ErrorInstance msg stack extras) = ErrorObject obj
     \<and> map_of obj = [''message'' \<mapsto> msg, ''stack'' \<mapsto> stack] ++ map_of (rev extras)"
proof -
  have "map_of [(''message'', msg), (''stack'', stack)] = [''message'' \<mapsto> msg, ''stack'' \<mapsto> stack]"
    by (auto simp: fun_eq_iff)
  then show ?thesis
    by (simp add: errorData_def map_of_spread_eq)
qed

text \<open>
  Claim C8. \<open>handleRequest\<close> never throws: it emits exactly one response, whose
  \<open>isError\<close> is true exactly when the command did not succeed, and then its data is an
  error payload. When a connection method or a tab function throws, the response has
  \<open>isError\<close> true and carries the payload built from the thrown value: for an
  \<open>Error\<close>, an object with its message, its stack and every field of its own (a field
  of its own named like one of these taking its place); for any other value, a new error
  quoting it. When the command is no member of the connection and no function of the
  addressed tab, the response carries an error naming the command, and the connection
  is as it was but for the emitted response.
\<close>

theorem handleRequest_errors:
  "(\<exists>conn1 resp. handleRequest env conn payload = conn1\<lparr>emitted := emitted conn1 @ [Message resp]\<rparr>
       \<and> snd (tryCommand env conn payload) = conn1
       \<and> responseId resp = messageId_req payload
       \<and> (isError resp \<longleftrightarrow> (\<forall>d. fst (tryCommand env conn payload) \<noteq> Succeeded d))
       \<and> (isError resp \<longrightarrow> isErrorPayload (data_res resp)))
   \<and> (\<forall>f e conn1.
         members env (command_req payload) = Some (Method f)
         \<and> f conn (meta_req payload) (args_req payload) = (Throws e, conn1) \<longrightarrow>
         handleRequest env conn payload
           = conn1\<lparr>emitted := emitted conn1 @
               [Message \<lparr>responseId = messageId_req payload,
                         commandId = commandIdOf env (meta_req payload),
                         data_res = errorData e, isError = True\<rparr>]\<rparr>)
   \<and> (\<forall>tab f e conn1.
         members env (command_req payload) = None
         \<and> getTab env (meta_req payload) = TabFound tab
         \<and> tab (command_req payload) = Some (TabFunction f)
         \<and> f conn (args_req payload) = (Throws e, conn1) \<longrightarrow>
         handleRequest env conn payload
           = conn1\<lparr>emitted := emitted conn1 @
               [Message \<lparr>responseId = messageId_req payload,
                         commandId = commandIdOf env (meta_req payload),
                         data_res = errorData e, isError = True\<rparr>]\<rparr>)
   \<and> (\<forall>msg stack extras.
         \<exists>obj. (errorData (ErrorInstance msg stack extras) :: 'd payloadData) = ErrorObject obj
           \<and> map_of obj = [''message'' \<mapsto> msg, ''stack'' \<mapsto> stack] ++ map_of (rev extras))
   \<and> (\<forall>str. (errorData (NotAnError str) :: 'd payloadData)
                = NewError (''Unknown error occurred '' @ str))
   \<and> (\<forall>tab.
         members env (command_req payload) = None
         \<and> getTab env (meta_req payload) = TabFound tab
         \<and> (\<forall>f. tab (command_req payload) \<noteq> Some (TabFunction f)) \<longrightarrow>
         (\<exists>ty. handleRequest env conn payload
           = conn\<lparr>emitted := emitted conn @
               [Message \<lparr>responseId = messageId_req payload,
                         commandId = commandIdOf env (meta_req payload),
                         data_res = NewError (''Command not available on tab (''
                                      @ command_req payload @ '' - '' @ ty @ '')''),
                         isError = True\<rparr>]\<rparr>))"
  for env :: "'d environment"
proof -
  note p = handleRequest_paths [of env conn payload, unfolded errorResponse_def]
  have e1: "\<forall>msg stack extras.
         \<exists>obj. (errorData (ErrorInstance msg stack extras) :: 'd payloadData) = ErrorObject obj
           \<and> map_of obj = [''message'' \<mapsto> msg, ''stack'' \<mapsto> stack] ++ map_of (rev extras)"
    using errorData_ErrorInstance by blast
  have e2: "\<forall>str. (errorData (NotAnError str) :: 'd payloadData)
                = NewError (''Unknown error occurred '' @ str)"
    by (simp add: errorData_def)
  note p1 = p [THEN conjunct1]
  note p2 = p [THEN conjunct2, THEN conjunct1]
  note p3 = p [THEN conjunct2, THEN conjunct2, THEN conjunct1]
  note p4 = p [THEN conjunct2, THEN conjunct2, THEN conjunct2]
  show ?thesis
    by (rule conjI [OF p1 conjI [OF p2 conjI [OF p3 conjI [OF e1 conjI [OF e2 p4]]]]])
qed

lemma demo_eval:
  "members demoEnvironment ''click'' = None"
  "members demoEnvironment ''goto'' = None"
  "members demoEnvironment ''waitForElement'' = None"
  "getTab demoEnvironment (meta_req (demoRequest mid cmd)) = TabFound demoTab"
  "command_req (demoRequest mid cmd) = cmd" "messageId_req (demoRequest mid cmd) = mid"
  "args_req (demoRequest mid cmd) = []"
  "commandIdOf demoEnvironment (meta_req (demoRequest mid cmd)) = Some 3"
  by (simp_all add: demoEnvironment_def demoRequest_def commandIdOf_def)

lemma demoTab_eval:
  "demoTab ''click'' = None"
  "demoTab ''goto'' = Some (TabFunction (\<lambda>conn args. (Throws (NotAnError ''timeout''), conn)))"
  "demoTab ''waitForElement'' =
     Some (TabFunction (\<lambda>conn args.
          (Throws (ErrorInstance ''Timeout waiting for element''
                     ''Error: Timeout waiting for element'' [(''code'', ''ERR_TIMEOUT'')]),
           conn)))"
  by (simp_all add: demoTab_def)

theorem handleRequest_errors_witness:
  "handleRequest demoEnvironment demoConnection (demoRequest ''m1'' ''click'')
     = demoConnection\<lparr>emitted :=
         [Message \<lparr>responseId = ''m1'', commandId = Some 3,
                   data_res = NewError ''Command not available on tab (click - undefined)'',
                   isError = True\<rparr>]\<rparr>
   \<and> handleRequest demoEnvironment demoConnection (demoRequest ''m2'' ''goto'')
     = demoConnection\<lparr>emitted :=
         [Message \<lparr>responseId = ''m2'', commandId = Some 3,
                   data_res = NewError ''Unknown error occurred timeout'',
                   isError = True\<rparr>]\<rparr>
   \<and> handleRequest demoEnvironment demoConnection (demoRequest ''m3'' ''waitForElement'')
     = demoConnection\<lparr>emitted :=
         [Message \<lparr>responseId = ''m3'', commandId = Some 3,
                   data_res = ErrorObject [(''message'', ''Timeout waiting for element''),
                                           (''stack'', ''Error: Timeout waiting for element''),
                                           (''code'', ''ERR_TIMEOUT'')],
                   isError = True\<rparr>]\<rparr>
   \<and> isClosing (handleRequest demoEnvironment
         (handleRequest demoEnvironment demoConnection (demoRequest ''m1'' ''click''))
         (demoRequest ''m2'' ''goto'')) = False"
proof -
  note th2 = handleRequest_errors [of demoEnvironment demoConnection "demoRequest ''m2'' ''goto''"]
  note th3 = handleRequest_errors [of demoEnvironment demoConnection "demoRequest ''m3'' ''waitForElement''"]
  have a': "handleRequest demoEnvironment demoConnection (demoRequest ''m1'' ''click'')
     = demoConnection\<lparr>emitted :=
         [Message \<lparr>responseId = ''m1'', commandId = Some 3,
                   data_res = NewError ''Command not available on tab (click - undefined)'',
                   isError = True\<rparr>]\<rparr>"
    by (simp add: handleRequest_def tryCommand_def demo_eval demoTab_eval Let_def demoConnection_def)
  note t2 = th2 [THEN conjunct2, THEN conjunct2, THEN conjunct1, rule_format,
      of demoTab "\<lambda>conn args. (Throws (NotAnError ''timeout''), conn)" "NotAnError ''timeout''"
         demoConnection]
  have b: "handleRequest demoEnvironment demoConnection (demoRequest ''m2'' ''goto'')
           = demoConnection\<lparr>emitted := emitted demoConnection @
               [Message \<lparr>responseId = ''m2'', commandId = Some 3,
                         data_res = errorData (NotAnError ''timeout''), isError = True\<rparr>]\<rparr>"
    using t2 by (simp add: demo_eval demoTab_eval)
  note t3 = th3 [THEN conjunct2, THEN conjunct2, THEN conjunct1, rule_format,
      of demoTab "\<lambda>conn args.
          (Throws (ErrorInstance ''Timeout waiting for element''
                     ''Error: Timeout waiting for element'' [(''code'', ''ERR_TIMEOUT'')]),
           conn)"
         "ErrorInstance ''Timeout waiting for element''
                     ''Error: Timeout waiting for element'' [(''code'', ''ERR_TIMEOUT'')]"
         demoConnection]
  have b3: "handleRequest demoEnvironment demoConnection (demoRequest ''m3'' ''waitForElement'')
           = demoConnection\<lparr>emitted := emitted demoConnection @
               [Message \<lparr>responseId = ''m3'', commandId = Some 3,
                         data_res = errorData (ErrorInstance ''Timeout waiting for element''
                           ''Error: Timeout waiting for element'' [(''code'', ''ERR_TIMEOUT'')]),
                         isError = True\<rparr>]\<rparr>"
    using t3 by (simp add: demo_eval demoTab_eval)
  have c: "isClosing (handleRequest demoEnvironment
         (handleRequest demoEnvironment demoConnection (demoRequest ''m1'' ''click''))
         (demoRequest ''m2'' ''goto'')) = False"
    unfolding a'
    by (simp add: handleRequest_def tryCommand_def demo_eval demoTab_eval Let_def demoConnection_def)
  show ?thesis
    using a' b b3 c by (simp add: errorData_def demoConnection_def)
qed

lemma poolOk_newPool: "poolOk (newPool k)"
  by (simp add: poolOk_def newPool_def)

lemma poolOk_createSession: "poolOk p \<Longrightarrow> poolOk (createSession request p)"
  by (auto simp: poolOk_def createSession_def createSessionNow_def)

lemma length_remove1_mem: "x \<in> set xs \<Longrightarrow> Suc (length (remove1 x xs)) = length xs"
  using length_pos_if_in_set [of x xs] by (simp add: length_remove1)

lemma poolOk_closeSession:
  assumes "poolOk p"
  shows "poolOk (closeSession session p)"
proof (cases "session \<in> set (openSessions p)")
  case False
  then show ?thesis using assms by (simp add: closeSession_def)
next
  case True
  note l = length_remove1_mem [OF True]
  show ?thesis
  proof (cases "waitingForAvailability p")
    case Nil
    then show ?thesis
      using assms True l by (auto simp: poolOk_def closeSession_def Let_def)
  next
    case (Cons r rest)
    then show ?thesis
      using assms True l by (auto simp: poolOk_def closeSession_def createSessionNow_def Let_def)
  qed
qed

lemma poolOk_poolStep: "poolOk p \<Longrightarrow> poolOk (poolStep p e)"
  by (cases e) (simp_all add: poolOk_createSession poolOk_closeSession)

lemma max_poolStep: "maxConcurrentAgentsCount (poolStep p e) = maxConcurrentAgentsCount p"
  by (cases e) (auto simp: createSession_def closeSession_def createSessionNow_def Let_def
      split: list.splits)

lemma poolRun_snoc: "poolRun p (events @ [e]) = poolStep (poolRun p events) e"
  by (simp add: poolRun_def)

lemma poolOk_poolRun: "poolOk (poolRun (newPool k) events)"
  by (induction events rule: rev_induct) (simp_all add: poolRun_snoc poolOk_poolStep, simp add: poolRun_def poolOk_newPool)

lemma max_poolRun: "maxConcurrentAgentsCount (poolRun (newPool k) events) = k"
  by (induction events rule: rev_induct) (simp_all add: poolRun_snoc max_poolStep, simp add: poolRun_def newPool_def)

lemma burst:
  "poolRun (newPool k) (map CreateSession [0..<N]) =
     \<lparr>maxConcurrentAgentsCount = k, openSessions = [0..<min k N],
      waitingForAvailability = [k..<N], created = map (\<lambda>i. (i, i)) [0..<min k N],
      nextSession = min k N\<rparr>"
proof (induction N)
  case 0
  then show ?case by (simp add: poolRun_def newPool_def)
next
  case (Suc N)
  have "poolRun (newPool k) (map CreateSession [0..<Suc N])
      = createSession N (poolRun (newPool k) (map CreateSession [0..<N]))"
    by (simp add: poolRun_def)
  then have step: "poolRun (newPool k) (map CreateSession [0..<Suc N])
      = createSession N
          \<lparr>maxConcurrentAgentsCount = k, openSessions = [0..<min k N],
           waitingForAvailability = [k..<N], created = map (\<lambda>i. (i, i)) [0..<min k N],
           nextSession = min k N\<rparr>"
    unfolding Suc.IH .
  show ?case
  proof (cases "N < k")
    case True
    then have m: "min k N = N" "min k (Suc N) = Suc N" by simp_all
    show ?thesis
      unfolding step m using True by (simp add: createSession_def createSessionNow_def)
  next
    case False
    then have m: "min k N = k" "min k (Suc N) = k" by simp_all
    show ?thesis
      unfolding step m using False by (simp add: createSession_def)
  qed
qed

lemma waits_until_close:
  assumes ok: "poolOk p" and w: "request \<in> set (waitingForAvailability p)"
    and n: "\<not> completed p request" and c: "completed (poolStep p e) request"
  shows "\<exists>session. e = CloseSession session \<and> session \<in> set (openSessions p)"
proof (cases e)
  case (CreateSession r')
  have "waitingForAvailability p \<noteq> []" using w by auto
  then have "length (openSessions p) = maxConcurrentAgentsCount p"
    using ok by (auto simp: poolOk_def)
  then have "created (poolStep p e) = created p"
    unfolding CreateSession by (simp add: createSession_def)
  then show ?thesis using n c by (simp add: completed_def)
next
  case (CloseSession session)
  have "session \<in> set (openSessions p)"
  proof (rule ccontr)
    assume "session \<notin> set (openSessions p)"
    then have "poolStep p e = p" unfolding CloseSession by (simp add: closeSession_def)
    then show False using n c by simp
  qed
  then show ?thesis using CloseSession by simp
qed

lemma close_admits:
  assumes w: "waitingForAvailability p = request # rest" and s: "session \<in> set (openSessions p)"
  shows "completed (closeSession session p) request
     \<and> length (openSessions (closeSession session p)) = length (openSessions p)
     \<and> waitingForAvailability (closeSession session p) = rest"
  using assms length_remove1_mem [OF s]
  by (auto simp: closeSession_def createSessionNow_def completed_def Let_def)

text \<open>
  Claim C1. In every state a pool of capacity \<open>k\<close> reaches, at most \<open>k\<close> sessions
  are open. A creation request that finds \<open>k\<close> sessions open is queued, and nothing
  else changes: it does not fail and it does not complete. A queued request completes
  only in a step that closes an open session, and the close of an open session completes
  the request at the head of the queue without exceeding \<open>k\<close>. Of \<open>N > k\<close> requests
  made at once, the first \<open>k\<close> get a session and the others wait.
\<close>

theorem pool_capacity:
  "length (openSessions (poolRun (newPool k) events)) \<le> k
   \<and> (length (openSessions (poolRun (newPool k) events)) = k \<longrightarrow>
        createSession request (poolRun (newPool k) events)
          = (poolRun (newPool k) events)
              \<lparr>waitingForAvailability :=
                 waitingForAvailability (poolRun (newPool k) events) @ [request]\<rparr>)
   \<and> (\<forall>e. request \<in> set (waitingForAvailability (poolRun (newPool k) events))
          \<and> \<not> completed (poolRun (newPool k) events) request
          \<and> completed (poolStep (poolRun (newPool k) events) e) request \<longrightarrow>
          (\<exists>session. e = CloseSession session
             \<and> session \<in> set (openSessions (poolRun (newPool k) events))))
   \<and> (\<forall>session rest.
          waitingForAvailability (poolRun (newPool k) events) = request # rest
          \<and> session \<in> set (openSessions (poolRun (newPool k) events)) \<longrightarrow>
          completed (closeSession session (poolRun (newPool k) events)) request
          \<and> length (openSessions (closeSession session (poolRun (newPool k) events))) \<le> k)
   \<and> (k < N \<longrightarrow>
        openSessions (poolRun (newPool k) (map CreateSession [0..<N])) = [0..<k]
        \<and> waitingForAvailability (poolRun (newPool k) (map CreateSession [0..<N])) = [k..<N]
        \<and> created (poolRun (newPool k) (map CreateSession [0..<N])) = map (\<lambda>i. (i, i)) [0..<k])"
proof (intro conjI allI impI)
  let ?p = "poolRun (newPool k) events"
  have ok: "poolOk ?p" by (rule poolOk_poolRun)
  have mx: "maxConcurrentAgentsCount ?p = k" by (rule max_poolRun)
  show le: "length (openSessions ?p) \<le> k"
    using ok mx by (simp add: poolOk_def)
  show "createSession request ?p = ?p\<lparr>waitingForAvailability := waitingForAvailability ?p @ [request]\<rparr>"
    if "length (openSessions ?p) = k"
    using that mx by (simp add: createSession_def)
  show "\<exists>session. e = CloseSession session \<and> session \<in> set (openSessions ?p)"
    if "request \<in> set (waitingForAvailability ?p) \<and> \<not> completed ?p request
          \<and> completed (poolStep ?p e) request" for e
    using that waits_until_close [OF ok] by blast
  show "completed (closeSession session ?p) request"
    and "length (openSessions (closeSession session ?p)) \<le> k"
    if "waitingForAvailability ?p = request # rest \<and> session \<in> set (openSessions ?p)"
    for session rest
    using that close_admits [of ?p request rest session] le by simp_all
next
  assume "k < N"
  then show "openSessions (poolRun (newPool k) (map CreateSession [0..<N])) = [0..<k]"
    and "waitingForAvailability (poolRun (newPool k) (map CreateSession [0..<N])) = [k..<N]"
    and "created (poolRun (newPool k) (map CreateSession [0..<N])) = map (\<lambda>i. (i, i)) [0..<k]"
    by (simp_all add: burst min_def)
qed


theorem pool_capacity_witness:
  "openSessions (poolRun (newPool 2) (map CreateSession [0..<3])) = [0, 1]
   \<and> waitingForAvailability (poolRun (newPool 2) (map CreateSession [0..<3])) = [2]
   \<and> length (openSessions (poolRun (newPool 2) (map CreateSession [0..<3]))) \<le> 2
   \<and> \<not> completed (poolRun (newPool 2) (map CreateSession [0..<3])) 2
   \<and> completed (closeSession 0 (poolRun (newPool 2) (map CreateSession [0..<3]))) 2
   \<and> length (openSessions (closeSession 0 (poolRun (newPool 2) (map CreateSession [0..<3])))) \<le> 2"
proof -
  let ?p = "poolRun (newPool 2) (map CreateSession [0..<3])"
  note th = pool_capacity [of 2 "map CreateSession [0..<3]" 2 3]
  have lt: "(2::nat) < 3" by simp
  have u: "[0..<2] = [0, Suc 0]" "[2..<3] = [2::nat]"
    by (simp_all add: upt_conv_Cons del: upt_Suc)
  have a: "openSessions ?p = [0, 1]" and b: "waitingForAvailability ?p = [2]"
    and c: "created ?p = [(0, 0), (1, 1)]"
    using th lt unfolding u by simp_all
  have d: "\<not> completed ?p 2" using c by (simp add: completed_def)
  have e: "completed (closeSession 0 ?p) 2 \<and> length (openSessions (closeSession 0 ?p)) \<le> 2"
    using th a b by simp
  show ?thesis
    using th a b d e by simp
qed

end
